theory Spec2Isabelle
  imports Main
begin

section \<open>Strings and regular-expression replacement\<close>

text \<open>
  A JavaScript string is modelled as a \<^typ>\<open>string\<close>: one \<^typ>\<open>char\<close> per code unit,
  for the code units below 256. The character classes are those of the regular
  expressions the sources use, read without the unicode flag.
\<close>

definition nl :: char where
  "nl = CHR 0x0A"

text \<open>The class \<^verbatim>\<open>\s\<close> (and the characters \<^verbatim>\<open>trim\<close> strips): TAB, LF, VT, FF, CR, space, NBSP.\<close>

definition is_space :: "char \<Rightarrow> bool" where
  "is_space c = (c \<in> {CHR 0x09, CHR 0x0A, CHR 0x0B, CHR 0x0C, CHR 0x0D, CHR 0x20, CHR 0xA0})"

definition is_alpha :: "char \<Rightarrow> bool" where
  "is_alpha c = (let n = (of_char c :: nat) in (65 \<le> n \<and> n \<le> 90) \<or> (97 \<le> n \<and> n \<le> 122))"

definition is_digit :: "char \<Rightarrow> bool" where
  "is_digit c = (let n = (of_char c :: nat) in 48 \<le> n \<and> n \<le> 57)"

text \<open>The class \<^verbatim>\<open>\w\<close>, that is \<^verbatim>\<open>[A-Za-z0-9_]\<close>.\<close>

definition is_word :: "char \<Rightarrow> bool" where
  "is_word c = (is_alpha c \<or> is_digit c \<or> c = CHR ''_'')"

text \<open>The class \<^verbatim>\<open>[a-zA-Z_$]\<close>.\<close>

definition is_ident_start :: "char \<Rightarrow> bool" where
  "is_ident_start c = (is_alpha c \<or> c = CHR ''_'' \<or> c = CHR ''$'')"

text \<open>
  \<^verbatim>\<open>String.prototype.replace\<close> with a global regular expression. A matcher tells, for
  the text at the current position, whether the expression matches there, and then
  gives the replacement and the text left after the match. The scan goes left to right;
  where there is no match the character is copied and the scan moves on by one; after
  an empty match it copies one character, as the \<^verbatim>\<open>lastIndex\<close> rule does.
\<close>

type_synonym matcher = "string \<Rightarrow> (string \<times> string) option"

function replace_all :: "matcher \<Rightarrow> string \<Rightarrow> string" where
  "replace_all m s =
     (case m s of
        Some (rep, rest) \<Rightarrow>
          (if length rest < length s then rep @ replace_all m rest
           else rep @ (case s of [] \<Rightarrow> [] | c # cs \<Rightarrow> c # replace_all m cs))
      | None \<Rightarrow> (case s of [] \<Rightarrow> [] | c # cs \<Rightarrow> c # replace_all m cs))"
  by pat_completeness auto
termination
  by (relation "measure (\<lambda>(m, s). length s)") auto

declare replace_all.simps [simp del]

text \<open>A single character of a class, replaced by a fixed text.\<close>

definition m_class :: "(char \<Rightarrow> bool) \<Rightarrow> string \<Rightarrow> matcher" where
  "m_class P rep s = (case s of [] \<Rightarrow> None | c # cs \<Rightarrow> if P c then Some (rep, cs) else None)"

text \<open>One or more characters of a class (greedy), replaced by a fixed text.\<close>

definition m_plus :: "(char \<Rightarrow> bool) \<Rightarrow> string \<Rightarrow> matcher" where
  "m_plus P rep s = (case s of [] \<Rightarrow> None | c # cs \<Rightarrow> if P c then Some (rep, dropWhile P cs) else None)"

text \<open>\<^verbatim>\<open>split\<close> on a one-character separator, \<^verbatim>\<open>join\<close>, \<^verbatim>\<open>trim\<close>, \<^verbatim>\<open>String.includes\<close>,
  \<^verbatim>\<open>startsWith\<close>, \<^verbatim>\<open>endsWith\<close> and \<^verbatim>\<open>repeat\<close>.\<close>

fun split_on :: "char \<Rightarrow> string \<Rightarrow> string list" where
  "split_on sep [] = [[]]"
| "split_on sep (c # cs) =
     (if c = sep then [] # split_on sep cs
      else (case split_on sep cs of [] \<Rightarrow> [[c]] | l # ls \<Rightarrow> (c # l) # ls))"

fun join :: "string \<Rightarrow> string list \<Rightarrow> string" where
  "join sep [] = []"
| "join sep [l] = l"
| "join sep (l # ls) = l @ sep @ join sep ls"

definition trim :: "string \<Rightarrow> string" where
  "trim s = rev (dropWhile is_space (rev (dropWhile is_space s)))"

fun includes_str :: "string \<Rightarrow> string \<Rightarrow> bool" where
  "includes_str sub [] = (sub = [])"
| "includes_str sub (c # cs) = (take (length sub) (c # cs) = sub \<or> includes_str sub cs)"

definition startsWith :: "string \<Rightarrow> string \<Rightarrow> bool" where
  "startsWith s p = (take (length p) s = p)"

definition endsWith :: "string \<Rightarrow> string \<Rightarrow> bool" where
  "endsWith s p = (length p \<le> length s \<and> drop (length s - length p) s = p)"

definition repeat :: "string \<Rightarrow> nat \<Rightarrow> string" where
  "repeat s n = concat (replicate n s)"

text \<open>The decimal text of a number, as a template literal prints it.\<close>

function string_of_nat :: "nat \<Rightarrow> string" where
  "string_of_nat n =
     (if n < 10 then [char_of (48 + n)]
      else string_of_nat (n div 10) @ [char_of (48 + n mod 10)])"
  by pat_completeness auto
termination
  by (relation "measure id") auto

declare string_of_nat.simps [simp del]

section \<open>content.js: the scanner\<close>

subsection \<open>utils\<close>

text \<open>
  \<^verbatim>\<open>sanitizeFilename\<close>: the three replacements \<^verbatim>\<open>/[^\w\s.-]/gi\<close>, \<^verbatim>\<open>/\s+/g\<close>
  and \<^verbatim>\<open>/_+/g\<close>, each by an underscore, then \<^verbatim>\<open>substring(0, 200)\<close>.
\<close>

definition sanitizeFilename :: "string \<Rightarrow> string" where
  "sanitizeFilename filename =
     take 200
       (replace_all (m_plus (\<lambda>c. c = CHR ''_'') ''_'')
         (replace_all (m_plus is_space ''_'')
           (replace_all
              (m_class (\<lambda>c. \<not> (is_word c \<or> is_space c \<or> c = CHR ''.'' \<or> c = CHR ''-'')) ''_'')
              filename)))"

text \<open>
  The host's \<^verbatim>\<open>URL\<close> constructor is a parameter: it gives the parsed URL, or nothing
  where the constructor throws.
\<close>

record url_obj =
  pathname :: string
  hostname :: string

type_synonym url_parser = "string \<Rightarrow> url_obj option"

definition getFilenameFromUrl :: "url_parser \<Rightarrow> string \<Rightarrow> string" where
  "getFilenameFromUrl parse u =
     (case parse u of
        None \<Rightarrow> ''unknown_file''
      | Some urlObj \<Rightarrow>
          (let filename = last (split_on CHR ''/'' (pathname urlObj))
           in if filename = [] then hostname urlObj @ ''_index'' else filename))"

subsection \<open>The page and the descriptors\<close>

text \<open>
  The document is the list of its elements in document order. A script or frame
  element carries the value of its \<^verbatim>\<open>src\<close> property when the attribute is present;
  a script element carries its \<^verbatim>\<open>textContent\<close>.
\<close>

datatype element =
    Script "string option" string
  | Iframe "string option"
  | Other

record page =
  href :: string
  outerHTML :: string
  elements :: "element list"

text \<open>An asset object. A field the object literal leaves out is \<open>None\<close>.\<close>

record asset =
  content :: "string option"
  url :: "string option"
  filename :: string
  atype :: string

record options =
  includeInline :: bool
  prettifyJs :: bool

text \<open>Truthiness of a string-valued field: absent and empty are falsy.\<close>

definition truthy :: "string option \<Rightarrow> bool" where
  "truthy v = (case v of None \<Rightarrow> False | Some s \<Rightarrow> s \<noteq> [])"

subsection \<open>scanner\<close>

text \<open>\<^verbatim>\<open>querySelectorAll\<close> for the three selectors, in document order.\<close>

fun select_script_src :: "element list \<Rightarrow> string list" where
  "select_script_src [] = []"
| "select_script_src (Script (Some src) t # es) = src # select_script_src es"
| "select_script_src (e # es) = select_script_src es"

fun select_script_not_src :: "element list \<Rightarrow> string list" where
  "select_script_not_src [] = []"
| "select_script_not_src (Script None t # es) = t # select_script_not_src es"
| "select_script_not_src (e # es) = select_script_not_src es"

fun select_iframe_src :: "element list \<Rightarrow> string list" where
  "select_iframe_src [] = []"
| "select_iframe_src (Iframe (Some src) # es) = src # select_iframe_src es"
| "select_iframe_src (e # es) = select_iframe_src es"

text \<open>Each \<^verbatim>\<open>forEach\<close> is a loop over the selected nodes that pushes onto the array.\<close>

fun getExternalScripts_loop :: "url_parser \<Rightarrow> string list \<Rightarrow> asset list \<Rightarrow> asset list" where
  "getExternalScripts_loop parse [] scripts = scripts"
| "getExternalScripts_loop parse (src # rest) scripts =
     (if src \<noteq> [] \<and> (startsWith src ''http'' \<or> startsWith src ''//'') then
        (let filename = getFilenameFromUrl parse src
         in getExternalScripts_loop parse rest
              (scripts @ [\<lparr>content = None, url = Some src,
                 filename = (if endsWith filename ''.js'' then filename else filename @ ''.js''),
                 atype = ''external-js''\<rparr>]))
      else getExternalScripts_loop parse rest scripts)"

definition getExternalScripts :: "url_parser \<Rightarrow> page \<Rightarrow> asset list" where
  "getExternalScripts parse p = getExternalScripts_loop parse (select_script_src (elements p)) []"

fun getInlineScripts_loop :: "nat \<Rightarrow> string list \<Rightarrow> asset list \<Rightarrow> asset list" where
  "getInlineScripts_loop index [] scripts = scripts"
| "getInlineScripts_loop index (textContent # rest) scripts =
     (if textContent \<noteq> [] \<and> trim textContent \<noteq> [] then
        getInlineScripts_loop (index + 1) rest
          (scripts @ [\<lparr>content = Some textContent, url = None,
             filename = ''inline_script_'' @ string_of_nat (index + 1) @ ''.js'',
             atype = ''inline-js''\<rparr>])
      else getInlineScripts_loop (index + 1) rest scripts)"

definition getInlineScripts :: "page \<Rightarrow> asset list" where
  "getInlineScripts p = getInlineScripts_loop 0 (select_script_not_src (elements p)) []"

definition getCurrentPageHtml :: "url_parser \<Rightarrow> page \<Rightarrow> asset" where
  "getCurrentPageHtml parse p =
     (let u = href p;
          filename = getFilenameFromUrl parse u @ ''.html''
      in \<lparr>content = Some (outerHTML p), url = Some u,
          filename = sanitizeFilename filename, atype = ''html''\<rparr>)"

fun getIframeHtml_loop :: "url_parser \<Rightarrow> string list \<Rightarrow> asset list \<Rightarrow> asset list" where
  "getIframeHtml_loop parse [] iframes = iframes"
| "getIframeHtml_loop parse (src # rest) iframes =
     (if src \<noteq> [] \<and> (startsWith src ''http'' \<or> startsWith src ''//'') then
        (let filename0 = getFilenameFromUrl parse src;
             filename = (if \<not> endsWith filename0 ''.html'' then filename0 @ ''.html'' else filename0)
         in getIframeHtml_loop parse rest
              (iframes @ [\<lparr>content = None, url = Some src, filename = filename,
                 atype = ''iframe-html''\<rparr>]))
      else getIframeHtml_loop parse rest iframes)"

definition getIframeHtml :: "url_parser \<Rightarrow> page \<Rightarrow> asset list" where
  "getIframeHtml parse p = getIframeHtml_loop parse (select_iframe_src (elements p)) []"

text \<open>\<^verbatim>\<open>scanAllAssets\<close>: the array \<^verbatim>\<open>assets\<close> after each push.\<close>

definition scanAllAssets :: "url_parser \<Rightarrow> options \<Rightarrow> page \<Rightarrow> asset list" where
  "scanAllAssets parse opts p =
     (let assets0 = [];
          assets1 = assets0 @ [getCurrentPageHtml parse p];
          assets2 = assets1 @ getExternalScripts parse p;
          assets3 = (if includeInline opts then assets2 @ getInlineScripts p else assets2);
          assets4 = assets3 @ getIframeHtml parse p
      in assets4)"

text \<open>The regular expression \<^verbatim>\<open>^[\w.-]{1,200}$\<close> of the naming rule.\<close>

definition valid_name :: "string \<Rightarrow> bool" where
  "valid_name s =
     (1 \<le> length s \<and> length s \<le> 200 \<and>
      list_all (\<lambda>c. is_word c \<or> c = CHR ''.'' \<or> c = CHR ''-'') s)"

section \<open>background.js: the formatter and the download manager\<close>

text \<open>A thrown \<^verbatim>\<open>Error\<close>, with its message. A computation that may throw returns
  \<open>Inl\<close> of the error or \<open>Inr\<close> of its value; \<^verbatim>\<open>try { body } catch (error) { handler }\<close>
  is \<open>try_catch\<close>.\<close>

datatype exn = Error string

definition try_catch :: "exn + 'a \<Rightarrow> (exn \<Rightarrow> exn + 'a) \<Rightarrow> exn + 'a" where
  "try_catch body handler = (case body of Inl error \<Rightarrow> handler error | Inr v \<Rightarrow> Inr v)"

subsection \<open>jsBeautify\<close>

text \<open>The expression \<^verbatim>\<open>/,(\s*[a-zA-Z_$])/g\<close> with the replacement \<^verbatim>\<open>',\n$1'\<close>. The
  greedy \<^verbatim>\<open>\s*\<close> takes the whole run of white space: a shorter run is followed by
  white space, which the class after it refuses.\<close>

definition m_comma :: matcher where
  "m_comma s =
     (case s of
        [] \<Rightarrow> None
      | c # cs \<Rightarrow>
          if c = CHR '','' then
            (case dropWhile is_space cs of
               [] \<Rightarrow> None
             | l # rest \<Rightarrow>
                 if is_ident_start l
                 then Some (CHR '','' # nl # takeWhile is_space cs @ [l], rest)
                 else None)
          else None)"

text \<open>The tail \<^verbatim>\<open>\s*\n\<close> of \<^verbatim>\<open>/\n\s*\n/g\<close>, by backtracking: first the longer run
  of white space, then the line feed here. The result is the text after the match.\<close>

fun match_ws_nl :: "string \<Rightarrow> string option" where
  "match_ws_nl [] = None"
| "match_ws_nl (c # cs) =
     (if is_space c then
        (case match_ws_nl cs of
           Some rest \<Rightarrow> Some rest
         | None \<Rightarrow> if c = nl then Some cs else None)
      else None)"

definition m_blank :: matcher where
  "m_blank s =
     (case s of
        [] \<Rightarrow> None
      | c # cs \<Rightarrow>
          if c = nl then (case match_ws_nl cs of Some rest \<Rightarrow> Some ([nl], rest) | None \<Rightarrow> None)
          else None)"

text \<open>The expression \<^verbatim>\<open>/\n{3,}/g\<close> with the replacement of two line feeds.\<close>

definition m_nl3 :: matcher where
  "m_nl3 s =
     (if 3 \<le> length (takeWhile (\<lambda>c. c = nl) s)
      then Some ([nl, nl], dropWhile (\<lambda>c. c = nl) s) else None)"

text \<open>The callback of \<^verbatim>\<open>lines.map\<close>, with the variable \<^verbatim>\<open>indentLevel\<close> it updates.
  The level never goes below zero (\<^verbatim>\<open>Math.max(0, indentLevel - 1)\<close>).\<close>

fun indent_lines :: "nat \<Rightarrow> string list \<Rightarrow> string list" where
  "indent_lines indentLevel [] = []"
| "indent_lines indentLevel (line # rest) =
     (let trimmed = trim line in
      if trimmed = [] then [] # indent_lines indentLevel rest
      else
        (let level1 = (if includes_str ''}'' trimmed then max 0 (indentLevel - 1) else indentLevel);
             indentedLine = repeat ''  '' level1 @ trimmed;
             level2 = (if includes_str ''{'' trimmed then level1 + 1 else level1)
         in indentedLine # indent_lines level2 rest))"

text \<open>The body of the \<^verbatim>\<open>try\<close> block of \<^verbatim>\<open>basicBeautify\<close>.\<close>

definition basicBeautify_text :: "string \<Rightarrow> string" where
  "basicBeautify_text code =
     (let formatted =
            replace_all m_nl3
              (replace_all m_blank
                (replace_all m_comma
                  (replace_all (m_class (\<lambda>c. c = CHR 0x7D) [nl, CHR 0x7D, nl])
                    (replace_all (m_class (\<lambda>c. c = CHR 0x7B) [CHR 0x7B, nl])
                      (replace_all (m_class (\<lambda>c. c = CHR '';'') [CHR '';'', nl]) code)))));
          lines = split_on nl formatted;
          indentedLines = indent_lines 0 lines
      in join [nl] indentedLines)"

definition basicBeautify :: "string \<Rightarrow> exn + string" where
  "basicBeautify code = try_catch (Inr (basicBeautify_text code)) (\<lambda>error. Inr code)"

text \<open>The engine \<^verbatim>\<open>js_beautify\<close> is the host's: \<open>None\<close> while it is not loaded
  (\<^verbatim>\<open>isAvailable\<close> is false), otherwise a function that returns a text or throws.\<close>

type_synonym engine = "(string \<Rightarrow> exn + string) option"

definition isAvailable :: "engine \<Rightarrow> bool" where
  "isAvailable e = (e \<noteq> None)"

definition beautify :: "engine \<Rightarrow> string \<Rightarrow> exn + string" where
  "beautify e code =
     try_catch
       (if isAvailable e then
          (case e of
             Some js_beautify \<Rightarrow> js_beautify code
           | None \<Rightarrow> Inl (Error ''js_beautify is not defined''))
        else basicBeautify code)
       (\<lambda>error. Inr code)"

subsection \<open>Notions for the analysis of the heuristic formatter\<close>

text \<open>A text is blank when it is white space only.\<close>

definition blank :: "string \<Rightarrow> bool" where
  "blank s = list_all is_space s"

text \<open>What the first three replacements of \<open>basicBeautify_text\<close> do to one character.\<close>

definition brk_char :: "char \<Rightarrow> string" where
  "brk_char c =
     (if c = CHR '';'' then [c, nl]
      else if c = CHR 0x7B then [c, nl]
      else if c = CHR 0x7D then [nl, c, nl]
      else [c])"

definition ins_breaks :: "string \<Rightarrow> string" where
  "ins_breaks s = concat (map brk_char s)"

text \<open>The first character after the white space at the head of a text is one of
  \<^verbatim>\<open>[a-zA-Z_$]\<close>.\<close>

definition ident_follows :: "string \<Rightarrow> bool" where
  "ident_follows s = (case dropWhile is_space s of [] \<Rightarrow> False | l # rest \<Rightarrow> is_ident_start l)"

text \<open>The comma replacement on a part of a text, where \<open>b\<close> tells whether an identifier
  follows the part.\<close>

fun comma_breaks :: "bool \<Rightarrow> string \<Rightarrow> string" where
  "comma_breaks b [] = []"
| "comma_breaks b (c # cs) =
     (if c = CHR '','' \<and> (if blank cs then b else ident_follows cs)
      then c # nl # comma_breaks b cs else c # comma_breaks b cs)"

text \<open>The lines of a text after the blank-line replacement: of the lines after the
  first, the blank ones go, but for the last line.\<close>

fun rest_norm :: "string list \<Rightarrow> string list" where
  "rest_norm [] = []"
| "rest_norm [l] = [l]"
| "rest_norm (l # ls) = (if blank l then rest_norm ls else l # rest_norm ls)"

definition norm_lines :: "string list \<Rightarrow> string list" where
  "norm_lines ls = (case ls of [] \<Rightarrow> [] | l # rest \<Rightarrow> l # rest_norm rest)"

text \<open>A text that neither starts nor ends with white space.\<close>

definition core :: "string \<Rightarrow> bool" where
  "core m = (m = [] \<or> (\<not> is_space (hd m) \<and> \<not> is_space (last m)))"

text \<open>No two line feeds in a row.\<close>

fun no_nlnl :: "string \<Rightarrow> bool" where
  "no_nlnl [] = True"
| "no_nlnl [c] = True"
| "no_nlnl (a # b # cs) = (\<not> (a = nl \<and> b = nl) \<and> no_nlnl (b # cs))"

text \<open>The closing brace, and the characters after which the first replacements put a
  line feed.\<close>

definition rbrace :: char where
  "rbrace = CHR 0x7D"

definition breaks_after :: "char \<Rightarrow> bool" where
  "breaks_after c = (c = CHR '';'' \<or> c = CHR 0x7B)"

text \<open>No comma of the text is followed by an identifier, unless white space alone
  follows it.\<close>

fun comma_ok :: "string \<Rightarrow> bool" where
  "comma_ok [] = True"
| "comma_ok (c # cs) = ((c \<noteq> CHR '','' \<or> blank cs \<or> \<not> ident_follows cs) \<and> comma_ok cs)"

text \<open>A line as the replacements leave it: a closing brace stands alone, a semicolon
  or an opening brace stands at the end only, and the commas are as above.\<close>

definition line_ok :: "string \<Rightarrow> bool" where
  "line_ok l =
     (nl \<notin> set l \<and> (l = [rbrace] \<or> rbrace \<notin> set l) \<and>
      list_all (\<lambda>c. \<not> breaks_after c) (butlast l) \<and> comma_ok l)"

text \<open>The lines of a text after the replacements: the first holds no closing brace and
  the last none of the three break characters.\<close>

definition lines_ok :: "string list \<Rightarrow> bool" where
  "lines_ok ls =
     (ls \<noteq> [] \<and> list_all line_ok ls \<and> rbrace \<notin> set (hd ls) \<and>
      list_all (\<lambda>c. \<not> breaks_after c \<and> c \<noteq> rbrace) (last ls))"

text \<open>The trimmed lines that the indentation receives.\<close>

definition normal_lines :: "string list \<Rightarrow> bool" where
  "normal_lines ls =
     (lines_ok ls \<and> list_all core ls \<and> list_all (\<lambda>l. \<not> blank l) (butlast (tl ls)))"

text \<open>A line of the output is a line of the input behind white space.\<close>

definition indented :: "string \<Rightarrow> string \<Rightarrow> bool" where
  "indented out n = (\<exists>w. blank w \<and> nl \<notin> set w \<and> out = w @ n)"

subsection \<open>downloadManager\<close>

text \<open>
  The host: the state \<open>'h\<close> of the browser and the network, and the calls the code
  makes into it. Each call takes the host state and returns the new one; a call that
  throws, or whose promise rejects, returns \<open>Inl\<close>.
  \<^item> \<open>js_beautify\<close>: the engine, when it is loaded in this state;
  \<^item> \<open>fetch\<close>: the response (\<^verbatim>\<open>ok\<close>, \<^verbatim>\<open>status\<close>, \<^verbatim>\<open>statusText\<close>, the outcome of
    \<^verbatim>\<open>text()\<close>) or a network error;
  \<^item> \<open>createObjectURL\<close>: \<^verbatim>\<open>URL.createObjectURL(new Blob([content], {type}))\<close>; the
    result is what follows the scheme \<^verbatim>\<open>blob:\<close> in the URL;
  \<^item> \<open>base64\<close>: \<^verbatim>\<open>btoa(unescape(encodeURIComponent(content)))\<close>;
  \<^item> \<open>download\<close>: \<^verbatim>\<open>chrome.downloads.download\<close>, which gives the download id.
\<close>

datatype fetch_response = Response bool nat string "exn + string"

record download_request =
  req_url :: string
  req_filename :: string
  saveAs :: bool
  conflictAction :: string

record 'h host_api =
  js_beautify :: "'h \<Rightarrow> engine"
  fetch :: "'h \<Rightarrow> string \<Rightarrow> (exn + fetch_response) \<times> 'h"
  createObjectURL :: "'h \<Rightarrow> string \<Rightarrow> string \<Rightarrow> (exn + string) \<times> 'h"
  base64 :: "string \<Rightarrow> exn + string"
  download :: "'h \<Rightarrow> download_request \<Rightarrow> (exn + nat) \<times> 'h"

text \<open>
  The world the download manager runs in: the host state, the timers set with
  \<^verbatim>\<open>setTimeout\<close> (delay in milliseconds and what the callback does), the object URLs
  created so far, and the requests passed to \<^verbatim>\<open>chrome.downloads.download\<close>.
\<close>

datatype timer_action = RevokeObjectURL string | SearchDownload nat | ResolvePause

record 'h world =
  hstate :: 'h
  timers :: "(nat \<times> timer_action) list"
  object_urls :: "string list"
  requests :: "download_request list"

record download_result =
  success :: bool
  downloadId :: "nat option"
  error :: "string option"
  res_filename :: string

record summary =
  total :: nat
  successful :: nat
  failed :: nat

datatype response =
    DownloadResponse "download_result list" summary
  | ErrorResponse string

definition getMimeType :: "string \<Rightarrow> string" where
  "getMimeType t =
     (if t = ''html'' \<or> t = ''iframe-html'' then ''text/html''
      else if t = ''external-js'' \<or> t = ''inline-js'' then ''application/javascript''
      else ''text/plain'')"

definition createDownloadUrl ::
  "'h host_api \<Rightarrow> string \<Rightarrow> string \<Rightarrow> 'h world \<Rightarrow> (exn + string) \<times> 'h world" where
  "createDownloadUrl api c mimeType w =
     (case createObjectURL api (hstate w) c mimeType of
        (Inr u, h) \<Rightarrow>
          (Inr (''blob:'' @ u), w\<lparr>hstate := h, object_urls := object_urls w @ [''blob:'' @ u]\<rparr>)
      | (Inl err, h) \<Rightarrow>
          (case base64 api c of
             Inr b \<Rightarrow> (Inr (''data:'' @ mimeType @ '';base64,'' @ b), w\<lparr>hstate := h\<rparr>)
           | Inl e \<Rightarrow> (Inl e, w\<lparr>hstate := h\<rparr>)))"

text \<open>\<^verbatim>\<open>fetchExternalContent\<close>: the body of the \<^verbatim>\<open>try\<close> block, then the function,
  which returns \<^verbatim>\<open>null\<close> (\<open>None\<close>) when the body throws.\<close>

definition fetchExternalContent_try ::
  "'h host_api \<Rightarrow> string \<Rightarrow> 'h world \<Rightarrow> (exn + string) \<times> 'h world" where
  "fetchExternalContent_try api u w =
     (case fetch api (hstate w) u of
        (Inl e, h) \<Rightarrow> (Inl e, w\<lparr>hstate := h\<rparr>)
      | (Inr (Response ok status statusText body), h) \<Rightarrow>
          (if \<not> ok then
             (Inl (Error (''HTTP '' @ string_of_nat status @ '': '' @ statusText)), w\<lparr>hstate := h\<rparr>)
           else (body, w\<lparr>hstate := h\<rparr>)))"

definition fetchExternalContent ::
  "'h host_api \<Rightarrow> string \<Rightarrow> 'h world \<Rightarrow> string option \<times> 'h world" where
  "fetchExternalContent api u w =
     (case fetchExternalContent_try api u w of
        (Inr body, w') \<Rightarrow> (Some body, w')
      | (Inl err, w') \<Rightarrow> (None, w'))"

text \<open>
  \<^verbatim>\<open>downloadFile\<close>, first part of the \<^verbatim>\<open>try\<close> block: the \<^verbatim>\<open>if\<close> chain that gives
  \<^verbatim>\<open>url\<close>. A field is truthy when it is present and not the empty string.
\<close>

definition resolve_url ::
  "'h host_api \<Rightarrow> asset \<Rightarrow> options \<Rightarrow> 'h world \<Rightarrow> (exn + string) \<times> 'h world" where
  "resolve_url api a opts w =
     (case content a of
        Some (c # cs) \<Rightarrow>
          (case (if prettifyJs opts \<and> includes_str ''js'' (atype a)
                 then beautify (js_beautify api (hstate w)) (c # cs) else Inr (c # cs)) of
             Inl e \<Rightarrow> (Inl e, w)
           | Inr content1 \<Rightarrow> createDownloadUrl api content1 (getMimeType (atype a)) w)
      | _ \<Rightarrow>
          (case url a of
             Some (d # ds) \<Rightarrow>
               (if prettifyJs opts \<and> includes_str ''js'' (atype a) then
                  (case fetchExternalContent api (d # ds) w of
                     (Some (t # ts), w1) \<Rightarrow>
                       (case beautify (js_beautify api (hstate w1)) (t # ts) of
                          Inl e \<Rightarrow> (Inl e, w1)
                        | Inr content1 \<Rightarrow> createDownloadUrl api content1 (getMimeType (atype a)) w1)
                   | (_, w1) \<Rightarrow> (Inr (d # ds), w1))
                else (Inr (d # ds), w))
           | _ \<Rightarrow> (Inl (Error ''Asset has no content or URL''), w)))"

text \<open>
  The rest of the \<^verbatim>\<open>try\<close> block. The loop that deletes undefined properties of
  \<^verbatim>\<open>downloadOptions\<close> changes nothing: all four are set.
\<close>

definition downloadFile_try ::
  "'h host_api \<Rightarrow> asset \<Rightarrow> options \<Rightarrow> 'h world \<Rightarrow> (exn + download_result) \<times> 'h world" where
  "downloadFile_try api a opts w =
     (case resolve_url api a opts w of
        (Inl e, w1) \<Rightarrow> (Inl e, w1)
      | (Inr u, w1) \<Rightarrow>
          (let downloadOptions =
                 \<lparr>req_url = u, req_filename = ''evil-downloads/'' @ filename a,
                  saveAs = False, conflictAction = ''uniquify''\<rparr>;
               w2 = w1\<lparr>requests := requests w1 @ [downloadOptions]\<rparr>
           in case download api (hstate w2) downloadOptions of
                (Inl e, h) \<Rightarrow> (Inl e, w2\<lparr>hstate := h\<rparr>)
              | (Inr did, h) \<Rightarrow>
                  (let w3 = w2\<lparr>hstate := h\<rparr>;
                       w4 = (if startsWith u ''blob:''
                             then w3\<lparr>timers := timers w3 @ [(5000, RevokeObjectURL u)]\<rparr> else w3);
                       w5 = w4\<lparr>timers := timers w4 @ [(1000, SearchDownload did)]\<rparr>
                   in (Inr \<lparr>success = True, downloadId = Some did, error = None,
                            res_filename = filename a\<rparr>, w5))))"

definition downloadFile ::
  "'h host_api \<Rightarrow> asset \<Rightarrow> options \<Rightarrow> 'h world \<Rightarrow> (exn + download_result) \<times> 'h world" where
  "downloadFile api a opts w =
     (case downloadFile_try api a opts w of
        (Inr r, w') \<Rightarrow> (Inr r, w')
      | (Inl (Error message), w') \<Rightarrow>
          (Inr \<lparr>success = False, downloadId = None, error = Some message,
                res_filename = filename a\<rparr>, w'))"

text \<open>\<^verbatim>\<open>downloadFiles\<close>: the \<^verbatim>\<open>for\<close> loop, with the array \<^verbatim>\<open>results\<close> and the pause
  of 200 milliseconds after each asset. An error thrown in the loop ends it.\<close>

fun downloadFiles_loop ::
  "'h host_api \<Rightarrow> options \<Rightarrow> asset list \<Rightarrow> download_result list \<Rightarrow> 'h world
     \<Rightarrow> (exn + download_result list) \<times> 'h world" where
  "downloadFiles_loop api opts [] results w = (Inr results, w)"
| "downloadFiles_loop api opts (a # rest) results w =
     (case downloadFile api a opts w of
        (Inl e, w1) \<Rightarrow> (Inl e, w1)
      | (Inr result, w1) \<Rightarrow>
          downloadFiles_loop api opts rest (results @ [result])
            (w1\<lparr>timers := timers w1 @ [(200, ResolvePause)]\<rparr>))"

definition downloadFiles ::
  "'h host_api \<Rightarrow> asset list \<Rightarrow> options \<Rightarrow> 'h world
     \<Rightarrow> (exn + download_result list) \<times> 'h world" where
  "downloadFiles api assets opts w =
     (if length assets = 0 then (Inr [], w) else downloadFiles_loop api opts assets [] w)"

text \<open>
  The world in which the loop of \<open>downloadFiles\<close>, started in \<open>w\<close>, reaches the asset at
  position \<open>i\<close>: the world as the assets before it and the pauses after them have left it.
\<close>

fun world_at :: "'h host_api \<Rightarrow> options \<Rightarrow> asset list \<Rightarrow> 'h world \<Rightarrow> nat \<Rightarrow> 'h world" where
  "world_at api opts [] w i = w"
| "world_at api opts (a # rest) w 0 = w"
| "world_at api opts (a # rest) w (Suc i) =
     (let w1 = snd (downloadFile api a opts w)
      in world_at api opts rest (w1\<lparr>timers := timers w1 @ [(200, ResolvePause)]\<rparr>) i)"

text \<open>The message listener, for the action \<^verbatim>\<open>downloadAssets\<close>: the response it sends.\<close>

definition on_downloadAssets ::
  "'h host_api \<Rightarrow> asset list \<Rightarrow> options \<Rightarrow> 'h world \<Rightarrow> response \<times> 'h world" where
  "on_downloadAssets api assets opts w =
     (case downloadFiles api assets opts w of
        (Inr results, w') \<Rightarrow>
          (let successCount = length (filter (\<lambda>r. success r) results);
               failureCount = length (filter (\<lambda>r. \<not> success r) results)
           in (DownloadResponse results
                 \<lparr>total = length results, successful = successCount, failed = failureCount\<rparr>, w'))
      | (Inl (Error message), w') \<Rightarrow> (ErrorResponse message, w'))"

text \<open>A fetch fails: a network error, a status that is not \<^verbatim>\<open>ok\<close>, or a body that
  cannot be read.\<close>

definition fetch_fails :: "'h host_api \<Rightarrow> string \<Rightarrow> 'h \<Rightarrow> bool" where
  "fetch_fails api u h =
     (case fst (fetch api h u) of
        Inl e \<Rightarrow> True
      | Inr (Response ok status statusText body) \<Rightarrow>
          \<not> ok \<or> (case body of Inl e \<Rightarrow> True | Inr t \<Rightarrow> False))"

subsection \<open>A host for the examples\<close>

text \<open>
  The host state counts the downloads started. The engine is not loaded, every fetch
  is answered with status 500, every object URL is created, and a download is refused
  when the file name holds a colon (and started otherwise).
\<close>

definition test_api :: "nat host_api" where
  "test_api =
     \<lparr>js_beautify = (\<lambda>h. None),
      fetch = (\<lambda>h u. (Inr (Response False 500 ''Internal Server Error'' (Inr [])), h)),
      createObjectURL = (\<lambda>h c mimeType. (Inr (''test/'' @ string_of_nat h), h)),
      base64 = (\<lambda>c. Inr c),
      download = (\<lambda>h r. if CHR '':'' \<in> set (req_filename r)
                          then (Inl (Error ''Invalid filename''), h) else (Inr h, Suc h))\<rparr>"

definition w0 :: "nat world" where
  "w0 = \<lparr>hstate = 0, timers = [], object_urls = [], requests = []\<rparr>"

definition external_a :: asset where
  "external_a = \<lparr>content = None, url = Some ''https://x.test/a.js'', filename = ''a.js'',
     atype = ''external-js''\<rparr>"

definition external_colon :: asset where
  "external_colon = \<lparr>content = None, url = Some ''https://x.test/a:b.js'', filename = ''a:b.js'',
     atype = ''external-js''\<rparr>"

definition inline_colon :: asset where
  "inline_colon = \<lparr>content = Some ''x=1'', url = None, filename = ''c:d.js'',
     atype = ''inline-js''\<rparr>"

definition no_origin :: asset where
  "no_origin = \<lparr>content = None, url = None, filename = ''n.js'', atype = ''inline-js''\<rparr>"

definition inline_ok :: asset where
  "inline_ok = \<lparr>content = Some ''x=1'', url = None, filename = ''inline_script_1.js'',
     atype = ''inline-js''\<rparr>"

definition opts_on :: options where
  "opts_on = \<lparr>includeInline = True, prettifyJs = True\<rparr>"

text \<open>The same host, but one that refuses every download.\<close>

definition refusing_api :: "nat host_api" where
  "refusing_api = test_api\<lparr>download := (\<lambda>h r. (Inl (Error ''Download canceled''), h))\<rparr>"

text \<open>The same host, but one that is busy at first: it refuses the first download asked
  of it and starts the later ones.\<close>

definition busy_api :: "nat host_api" where
  "busy_api =
     test_api\<lparr>download := (\<lambda>h r. if h = 0 then (Inl (Error ''busy''), Suc h) else (Inr h, Suc h))\<rparr>"

subsection \<open>Pages for the examples\<close>

text \<open>
  What the \<^verbatim>\<open>URL\<close> constructor gives for the addresses of the examples: the path of
  \<^verbatim>\<open>https://x.test/a@b.js\<close> is \<^verbatim>\<open>/a@b.js\<close>, the path of \<^verbatim>\<open>https://x.test/\<close> followed by
  200 letters is the slash and the letters, and the path of \<^verbatim>\<open>https://x.test/\<close> is the
  slash alone. Any other text is not a URL here.
\<close>

definition long_href :: string where
  "long_href = ''https://x.test/'' @ replicate 200 CHR ''a''"

definition test_parse :: url_parser where
  "test_parse u =
     (if u = ''https://x.test/a@b.js'' then Some \<lparr>pathname = ''/a@b.js'', hostname = ''x.test''\<rparr>
      else if u = long_href then Some \<lparr>pathname = CHR ''/'' # replicate 200 CHR ''a'', hostname = ''x.test''\<rparr>
      else if u = ''https://x.test/'' then Some \<lparr>pathname = ''/'', hostname = ''x.test''\<rparr>
      else None)"

text \<open>A page with one external script whose name holds an at sign.\<close>

definition page_at :: page where
  "page_at = \<lparr>href = ''https://x.test/'', outerHTML = ''<html></html>'',
     elements = [Script (Some ''https://x.test/a@b.js'') []]\<rparr>"

text \<open>A page whose address ends in a path segment of 200 letters.\<close>

definition page_long :: page where
  "page_long = \<lparr>href = long_href, outerHTML = ''<html></html>'', elements = []\<rparr>"

text \<open>A page with two inline scripts, the first with a blank body, and a page with two
  inline scripts that both have a body.\<close>

definition page_blank_first :: page where
  "page_blank_first = \<lparr>href = ''https://x.test/'', outerHTML = ''<html></html>'',
     elements = [Script None '' '', Other, Script None ''x=1'']\<rparr>"

definition page_two_inline :: page where
  "page_two_inline = \<lparr>href = ''https://x.test/'', outerHTML = ''<html></html>'',
     elements = [Script None ''x=1'', Script (Some ''https://x.test/a@b.js'') [], Script None ''y=2'']\<rparr>"

section \<open>Properties of the download manager and the formatter\<close>

lemma downloadFile_shape:
  "\<exists>r w'. downloadFile api a opts w = (Inr r, w') \<and>
     ((\<exists>did. r = \<lparr>success = True, downloadId = Some did, error = None, res_filename = filename a\<rparr>) \<or>
      (\<exists>m. r = \<lparr>success = False, downloadId = None, error = Some m, res_filename = filename a\<rparr>))"
  unfolding downloadFile_def downloadFile_try_def
  by (auto simp: Let_def split: prod.splits sum.splits exn.splits)

lemma downloadFile_catch:
  "downloadFile_try api a opts w = (Inl (Error m), w') \<Longrightarrow>
   downloadFile api a opts w =
     (Inr \<lparr>success = False, downloadId = None, error = Some m, res_filename = filename a\<rparr>, w')"
  by (simp add: downloadFile_def)

lemma downloadFiles_loop_shape:
  "\<exists>new w'. downloadFiles_loop api opts as rs w = (Inr (rs @ new), w') \<and>
      length new = length as \<and>
      (\<forall>i < length as. \<exists>wi wi'. downloadFile api (as ! i) opts wi = (Inr (new ! i), wi'))"
proof (induction as arbitrary: rs w)
  case Nil
  then show ?case by simp
next
  case (Cons a as)
  obtain r w1 where r: "downloadFile api a opts w = (Inr r, w1)"
    using downloadFile_shape [of api a opts w] by blast
  let ?w = "w1\<lparr>timers := timers w1 @ [(200, ResolvePause)]\<rparr>"
  obtain new w' where n: "downloadFiles_loop api opts as (rs @ [r]) ?w = (Inr ((rs @ [r]) @ new), w')"
     "length new = length as"
     "\<forall>i < length as. \<exists>wi wi'. downloadFile api (as ! i) opts wi = (Inr (new ! i), wi')"
    using Cons.IH [of "rs @ [r]" ?w] by blast
  have "\<forall>i < length (a # as). \<exists>wi wi'. downloadFile api ((a # as) ! i) opts wi = (Inr ((r # new) ! i), wi')"
  proof (intro allI impI)
    fix i assume "i < length (a # as)"
    then show "\<exists>wi wi'. downloadFile api ((a # as) ! i) opts wi = (Inr ((r # new) ! i), wi')"
      using r n(3) by (cases i) auto
  qed
  with r n(1,2) show ?case
    by (intro exI [of _ "r # new"] exI [of _ w']) simp
qed

lemma downloadFiles_shape:
  "\<exists>results w'. downloadFiles api assets opts w = (Inr results, w') \<and>
      length results = length assets \<and>
      (\<forall>i < length assets. \<exists>wi wi'. downloadFile api (assets ! i) opts wi = (Inr (results ! i), wi'))"
proof (cases assets)
  case Nil
  then show ?thesis by (simp add: downloadFiles_def)
next
  case (Cons a as)
  then have "downloadFiles api assets opts w = downloadFiles_loop api opts assets [] w"
    by (simp add: downloadFiles_def)
  then show ?thesis
    using downloadFiles_loop_shape [of api opts assets "[]" w] by simp
qed

lemma downloadFile_filename:
  "fst (downloadFile api a opts w) = Inr r \<Longrightarrow> res_filename r = filename a"
  using downloadFile_shape [of api a opts w] by auto

lemma downloadFiles_loop_results:
  "\<exists>new w'. \<forall>rs. downloadFiles_loop api opts as rs w = (Inr (rs @ new), w')"
proof (induction as arbitrary: w)
  case Nil
  show ?case by simp
next
  case (Cons a as)
  obtain r w1 where r: "downloadFile api a opts w = (Inr r, w1)"
    using downloadFile_shape [of api a opts w] by blast
  obtain new w' where n: "\<forall>rs. downloadFiles_loop api opts as rs
      (w1\<lparr>timers := timers w1 @ [(200, ResolvePause)]\<rparr>) = (Inr (rs @ new), w')"
    using Cons [of "w1\<lparr>timers := timers w1 @ [(200, ResolvePause)]\<rparr>"] by blast
  have "\<forall>rs. downloadFiles_loop api opts (a # as) rs w = (Inr (rs @ r # new), w')"
    using r n by simp
  then show ?case by blast
qed

lemma downloadFiles_is_loop:
  "downloadFiles api assets opts w = downloadFiles_loop api opts assets [] w"
  by (cases assets) (simp_all add: downloadFiles_def)

lemma downloadFiles_Cons:
  assumes "downloadFile api a opts w = (Inr r, w1)"
    and "downloadFiles api rest opts (w1\<lparr>timers := timers w1 @ [(200, ResolvePause)]\<rparr>) = (Inr rs, w2)"
  shows "downloadFiles api (a # rest) opts w = (Inr (r # rs), w2)"
proof -
  obtain new w' where n: "\<forall>acc. downloadFiles_loop api opts rest acc
      (w1\<lparr>timers := timers w1 @ [(200, ResolvePause)]\<rparr>) = (Inr (acc @ new), w')"
    using downloadFiles_loop_results by blast
  then have "new = rs" "w' = w2"
    using assms(2) by (simp_all add: downloadFiles_is_loop)
  then show ?thesis
    using assms(1) n by (simp add: downloadFiles_is_loop)
qed

lemma downloadFiles_threaded:
  "\<exists>results w'. downloadFiles api assets opts w = (Inr results, w') \<and>
      length results = length assets \<and>
      (\<forall>i < length assets.
         fst (downloadFile api (assets ! i) opts (world_at api opts assets w i)) = Inr (results ! i))"
proof (induction assets arbitrary: w)
  case Nil
  show ?case by (simp add: downloadFiles_def)
next
  case (Cons a rest)
  obtain r w1 where r: "downloadFile api a opts w = (Inr r, w1)"
    using downloadFile_shape [of api a opts w] by blast
  let ?w = "w1\<lparr>timers := timers w1 @ [(200, ResolvePause)]\<rparr>"
  obtain rs w2 where s: "downloadFiles api rest opts ?w = (Inr rs, w2)" "length rs = length rest"
      "\<forall>i < length rest.
         fst (downloadFile api (rest ! i) opts (world_at api opts rest ?w i)) = Inr (rs ! i)"
    using Cons [of ?w] by blast
  have e: "downloadFiles api (a # rest) opts w = (Inr (r # rs), w2)"
    using r s(1) by (rule downloadFiles_Cons)
  have "fst (downloadFile api ((a # rest) ! i) opts (world_at api opts (a # rest) w i)) =
      Inr ((r # rs) ! i)" if "i < length (a # rest)" for i
    using that r s(3) by (cases i) (simp_all add: Let_def)
  with e s(2) show ?case by simp
qed

text \<open>
  Claim C4. For every sequence of assets, \<open>downloadFiles\<close> returns (it does not throw)
  a list with exactly one result per asset, in the order of the assets. The empty
  sequence gives the empty list. For a first asset and the rest, the list is the result
  that \<open>downloadFile\<close> returns for the first asset in the world the batch starts in,
  followed by the results of the rest in the world that this call and the pause leave;
  when the \<^verbatim>\<open>try\<close> block of \<open>downloadFile\<close> throws an error with message \<open>m\<close> for the
  first asset, its result is the record with \<open>success = False\<close> and \<open>error = Some m\<close>,
  and the rest is still processed. So the result at position \<open>i\<close> carries the file
  name of asset \<open>i\<close> and is what \<open>downloadFile\<close> returns for asset \<open>i\<close> in the world
  in which the loop reaches it.
\<close>

theorem downloadFiles_one_result_per_asset:
  "downloadFiles api [] opts w = (Inr [], w) \<and>
   (\<exists>r w1 rs w2.
      downloadFile api a opts w = (Inr r, w1) \<and>
      downloadFiles api rest opts (w1\<lparr>timers := timers w1 @ [(200, ResolvePause)]\<rparr>) = (Inr rs, w2) \<and>
      downloadFiles api (a # rest) opts w = (Inr (r # rs), w2) \<and>
      length rs = length rest \<and>
      (\<forall>m w1'. downloadFile_try api a opts w = (Inl (Error m), w1') \<longrightarrow>
         r = \<lparr>success = False, downloadId = None, error = Some m, res_filename = filename a\<rparr> \<and>
         w1 = w1')) \<and>
   (\<exists>results w'.
      downloadFiles api assets opts w = (Inr results, w') \<and>
      length results = length assets \<and>
      (\<forall>i < length assets.
         res_filename (results ! i) = filename (assets ! i) \<and>
         fst (downloadFile api (assets ! i) opts (world_at api opts assets w i)) = Inr (results ! i) \<and>
         (\<forall>m w1. downloadFile_try api (assets ! i) opts (world_at api opts assets w i) =
              (Inl (Error m), w1) \<longrightarrow>
            results ! i = \<lparr>success = False, downloadId = None, error = Some m,
               res_filename = filename (assets ! i)\<rparr>)))"
proof -
  have 1: "downloadFiles api [] opts w = (Inr [], w)"
    by (simp add: downloadFiles_def)
  obtain r w1 where r: "downloadFile api a opts w = (Inr r, w1)"
    using downloadFile_shape [of api a opts w] by blast
  let ?w = "w1\<lparr>timers := timers w1 @ [(200, ResolvePause)]\<rparr>"
  obtain rs w2 where rs: "downloadFiles api rest opts ?w = (Inr rs, w2)" "length rs = length rest"
    using downloadFiles_threaded [of api rest opts ?w] by blast
  have c: "\<forall>m w1'. downloadFile_try api a opts w = (Inl (Error m), w1') \<longrightarrow>
         r = \<lparr>success = False, downloadId = None, error = Some m, res_filename = filename a\<rparr> \<and>
         w1 = w1'"
    using r by (auto dest: downloadFile_catch)
  have 2: "\<exists>r w1 rs w2.
      downloadFile api a opts w = (Inr r, w1) \<and>
      downloadFiles api rest opts (w1\<lparr>timers := timers w1 @ [(200, ResolvePause)]\<rparr>) = (Inr rs, w2) \<and>
      downloadFiles api (a # rest) opts w = (Inr (r # rs), w2) \<and>
      length rs = length rest \<and>
      (\<forall>m w1'. downloadFile_try api a opts w = (Inl (Error m), w1') \<longrightarrow>
         r = \<lparr>success = False, downloadId = None, error = Some m, res_filename = filename a\<rparr> \<and>
         w1 = w1')"
    using r rs c downloadFiles_Cons [OF r rs(1)] by blast
  obtain results w' where s: "downloadFiles api assets opts w = (Inr results, w')"
      "length results = length assets"
      "\<forall>i < length assets.
         fst (downloadFile api (assets ! i) opts (world_at api opts assets w i)) = Inr (results ! i)"
    using downloadFiles_threaded [of api assets opts w] by blast
  have "res_filename (results ! i) = filename (assets ! i) \<and>
         fst (downloadFile api (assets ! i) opts (world_at api opts assets w i)) = Inr (results ! i) \<and>
         (\<forall>m w1. downloadFile_try api (assets ! i) opts (world_at api opts assets w i) =
              (Inl (Error m), w1) \<longrightarrow>
            results ! i = \<lparr>success = False, downloadId = None, error = Some m,
               res_filename = filename (assets ! i)\<rparr>)" if i: "i < length assets" for i
  proof -
    let ?wi = "world_at api opts assets w i"
    have d: "fst (downloadFile api (assets ! i) opts ?wi) = Inr (results ! i)"
      using s(3) i by blast
    have f: "res_filename (results ! i) = filename (assets ! i)"
      using d by (rule downloadFile_filename)
    have "\<forall>m w1. downloadFile_try api (assets ! i) opts ?wi = (Inl (Error m), w1) \<longrightarrow>
            results ! i = \<lparr>success = False, downloadId = None, error = Some m,
               res_filename = filename (assets ! i)\<rparr>"
      using d by (auto dest: downloadFile_catch)
    with d f show ?thesis by blast
  qed
  then have 3: "\<exists>results w'.
      downloadFiles api assets opts w = (Inr results, w') \<and>
      length results = length assets \<and>
      (\<forall>i < length assets.
         res_filename (results ! i) = filename (assets ! i) \<and>
         fst (downloadFile api (assets ! i) opts (world_at api opts assets w i)) = Inr (results ! i) \<and>
         (\<forall>m w1. downloadFile_try api (assets ! i) opts (world_at api opts assets w i) =
              (Inl (Error m), w1) \<longrightarrow>
            results ! i = \<lparr>success = False, downloadId = None, error = Some m,
               res_filename = filename (assets ! i)\<rparr>))"
    using s(1,2) by blast
  from 1 2 3 show ?thesis by blast
qed

text \<open>
  On the host that is busy at first, a batch of the same asset twice: the first result
  is the failure with the message of the host, the second is the success of the
  download started in the world the first attempt left.
\<close>

theorem downloadFiles_one_result_per_asset_witness:
  "downloadFile_try busy_api external_a opts_on w0 =
     (Inl (Error ''busy''),
      w0\<lparr>hstate := 1,
         requests := [\<lparr>req_url = ''https://x.test/a.js'', req_filename = ''evil-downloads/a.js'',
           saveAs = False, conflictAction = ''uniquify''\<rparr>]\<rparr>) \<and>
   (\<exists>results w'. downloadFiles busy_api [external_a, external_a] opts_on w0 = (Inr results, w') \<and>
      length results = 2 \<and>
      results ! 0 =
        \<lparr>success = False, downloadId = None, error = Some ''busy'', res_filename = ''a.js''\<rparr> \<and>
      results ! 1 =
        \<lparr>success = True, downloadId = Some 1, error = None, res_filename = ''a.js''\<rparr>)"
proof -
  let ?req = "\<lparr>req_url = ''https://x.test/a.js'', req_filename = ''evil-downloads/a.js'',
           saveAs = False, conflictAction = ''uniquify''\<rparr>"
  let ?w1 = "w0\<lparr>hstate := 1, requests := [?req]\<rparr>"
  let ?w = "?w1\<lparr>timers := timers ?w1 @ [(200, ResolvePause)]\<rparr>"
  let ?as = "[external_a, external_a]"
  have t: "downloadFile_try busy_api external_a opts_on w0 = (Inl (Error ''busy''), ?w1)"
    by (simp add: downloadFile_try_def resolve_url_def external_a_def opts_on_def busy_api_def
        test_api_def w0_def fetchExternalContent_def fetchExternalContent_try_def Let_def)
  have second: "fst (downloadFile busy_api external_a opts_on ?w) =
      Inr \<lparr>success = True, downloadId = Some 1, error = None, res_filename = ''a.js''\<rparr>"
    by (simp add: downloadFile_def downloadFile_try_def resolve_url_def external_a_def opts_on_def
        busy_api_def test_api_def w0_def fetchExternalContent_def fetchExternalContent_try_def
        startsWith_def Let_def)
  have "snd (downloadFile busy_api external_a opts_on w0) = ?w1"
    using downloadFile_catch [OF t] by simp
  then have wa: "world_at busy_api opts_on ?as w0 (Suc 0) = ?w"
    by (simp add: Let_def)
  have wb: "world_at busy_api opts_on ?as w0 0 = w0"
    by simp
  note th = downloadFiles_one_result_per_asset
    [of busy_api opts_on w0 external_a "[external_a]" ?as, THEN conjunct2, THEN conjunct2]
  then obtain results w' where u:
      "downloadFiles busy_api ?as opts_on w0 = (Inr results, w')"
      "length results = length ?as"
      "\<forall>i < length ?as.
         res_filename (results ! i) = filename (?as ! i) \<and>
         fst (downloadFile busy_api (?as ! i) opts_on (world_at busy_api opts_on ?as w0 i)) =
           Inr (results ! i) \<and>
         (\<forall>m w1. downloadFile_try busy_api (?as ! i) opts_on (world_at busy_api opts_on ?as w0 i) =
              (Inl (Error m), w1) \<longrightarrow>
            results ! i = \<lparr>success = False, downloadId = None, error = Some m,
               res_filename = filename (?as ! i)\<rparr>)"
    by (elim exE conjE)
  have "0 < length ?as" by simp
  then have "\<forall>m w1. downloadFile_try busy_api (?as ! 0) opts_on (world_at busy_api opts_on ?as w0 0) =
              (Inl (Error m), w1) \<longrightarrow>
            results ! 0 = \<lparr>success = False, downloadId = None, error = Some m,
               res_filename = filename (?as ! 0)\<rparr>"
    using u(3) by blast
  then have r0: "results ! 0 =
      \<lparr>success = False, downloadId = None, error = Some ''busy'', res_filename = ''a.js''\<rparr>"
    using t unfolding wb by (simp add: external_a_def)
  have "Suc 0 < length ?as" by simp
  then have "fst (downloadFile busy_api (?as ! Suc 0) opts_on (world_at busy_api opts_on ?as w0 (Suc 0))) =
      Inr (results ! Suc 0)"
    using u(3) by blast
  then have r1: "results ! 1 =
      \<lparr>success = True, downloadId = Some 1, error = None, res_filename = ''a.js''\<rparr>"
    using second unfolding wa by simp
  have "length results = 2" using u(2) by simp
  with t u(1) r0 r1 show ?thesis by blast
qed

text \<open>
  Claim C5. The response to \<^verbatim>\<open>downloadAssets\<close> is never the error response; its summary
  has \<open>total\<close> the number of assets, \<open>successful\<close> the number of results with
  \<open>success\<close>, \<open>failed = total - successful\<close>, hence \<open>total = successful + failed\<close>;
  on the empty list the results are empty and the summary is 0, 0, 0.
\<close>

theorem summary_counts:
  "\<exists>results sm w'.
     on_downloadAssets api assets opts w = (DownloadResponse results sm, w') \<and>
     downloadFiles api assets opts w = (Inr results, w') \<and>
     length results = length assets \<and>
     summary.total sm = length assets \<and>
     successful sm = length (filter success results) \<and>
     failed sm = summary.total sm - successful sm \<and>
     summary.total sm = successful sm + failed sm \<and>
     on_downloadAssets api [] opts w =
       (DownloadResponse [] \<lparr>total = 0, successful = 0, failed = 0\<rparr>, w)"
proof -
  obtain results w' where s: "downloadFiles api assets opts w = (Inr results, w')"
      "length results = length assets"
    using downloadFiles_shape [of api assets opts w] by blast
  have c: "length (filter success results) + length (filter (\<lambda>r. \<not> success r) results) = length results"
    by (rule sum_length_filter_compl)
  have e: "on_downloadAssets api [] opts w =
       (DownloadResponse [] \<lparr>total = 0, successful = 0, failed = 0\<rparr>, w)"
    by (simp add: on_downloadAssets_def downloadFiles_def)
  let ?sm = "\<lparr>total = length results, successful = length (filter success results),
     failed = length (filter (\<lambda>r. \<not> success r) results)\<rparr>"
  have "on_downloadAssets api assets opts w = (DownloadResponse results ?sm, w')"
    using s(1) by (simp add: on_downloadAssets_def)
  with s c e show ?thesis
    by (intro exI [of _ results] exI [of _ ?sm] exI [of _ w']) auto
qed

lemma resolve_no_origin:
  "\<not> truthy (content a) \<Longrightarrow> \<not> truthy (url a) \<Longrightarrow>
   resolve_url api a opts w = (Inl (Error ''Asset has no content or URL''), w)"
  by (auto simp: resolve_url_def truthy_def split: option.splits list.splits)

lemma downloadFile_no_origin:
  "\<not> truthy (content a) \<Longrightarrow> \<not> truthy (url a) \<Longrightarrow>
   downloadFile api a opts w =
     (Inr \<lparr>success = False, downloadId = None, error = Some ''Asset has no content or URL'',
        res_filename = filename a\<rparr>, w)"
  by (simp add: downloadFile_def downloadFile_try_def resolve_no_origin)

text \<open>
  Claim C10. An asset with neither content nor URL (both absent or empty) does not make
  \<open>downloadFile\<close> throw: the result is the failure record with the message
  \<^verbatim>\<open>Asset has no content or URL\<close>, the world is unchanged, and in a batch the assets before
  and after it all get their results.
\<close>

theorem no_origin_recorded_as_failure:
  assumes "\<not> truthy (content a)" and "\<not> truthy (url a)"
  shows "downloadFile api a opts w =
           (Inr \<lparr>success = False, downloadId = None, error = Some ''Asset has no content or URL'',
              res_filename = filename a\<rparr>, w) \<and>
         (\<exists>results w'. downloadFiles api (before @ a # after) opts w1 = (Inr results, w') \<and>
            length results = length before + 1 + length after \<and>
            results ! length before =
              \<lparr>success = False, downloadId = None, error = Some ''Asset has no content or URL'',
                res_filename = filename a\<rparr>)"
proof -
  let ?as = "before @ a # after"
  obtain results w' where s: "downloadFiles api ?as opts w1 = (Inr results, w')"
      "length results = length ?as"
      "\<forall>i < length ?as. \<exists>wi wi'. downloadFile api (?as ! i) opts wi = (Inr (results ! i), wi')"
    using downloadFiles_shape [of api ?as opts w1] by blast
  have "length before < length ?as" by simp
  then obtain wi wi' where "downloadFile api (?as ! length before) opts wi = (Inr (results ! length before), wi')"
    using s(3) by blast
  then have "results ! length before =
      \<lparr>success = False, downloadId = None, error = Some ''Asset has no content or URL'',
        res_filename = filename a\<rparr>"
    using downloadFile_no_origin [OF assms, of api opts wi] by simp
  with s(1,2) downloadFile_no_origin [OF assms, of api opts w] show ?thesis by auto
qed

theorem no_origin_recorded_as_failure_witness:
  "\<not> truthy (content no_origin) \<and> \<not> truthy (url no_origin) \<and>
   downloadFile test_api no_origin opts_on w0 =
     (Inr \<lparr>success = False, downloadId = None, error = Some ''Asset has no content or URL'',
        res_filename = ''n.js''\<rparr>, w0) \<and>
   (\<exists>results w'. downloadFiles test_api [inline_ok, no_origin, external_a] opts_on w0 = (Inr results, w') \<and>
      length results = 3 \<and>
      results ! 1 = \<lparr>success = False, downloadId = None, error = Some ''Asset has no content or URL'',
        res_filename = ''n.js''\<rparr>)"
proof -
  have h: "\<not> truthy (content no_origin)" "\<not> truthy (url no_origin)"
    by (simp_all add: no_origin_def truthy_def)
  have f: "filename no_origin = ''n.js''"
    by (simp add: no_origin_def)
  show ?thesis
    using h no_origin_recorded_as_failure [OF h, of test_api opts_on w0 "[inline_ok]" "[external_a]" w0]
    by (auto simp: f)
qed

lemma fetch_fails_None:
  "fetch_fails api u (hstate w) \<Longrightarrow>
   \<exists>h. fetchExternalContent api u w = (None, w\<lparr>hstate := h\<rparr>) \<and> h = snd (fetch api (hstate w) u)"
  by (auto simp: fetch_fails_def fetchExternalContent_def fetchExternalContent_try_def
      split: prod.splits sum.splits fetch_response.splits)

text \<open>
  Claim C2, as amended. For an asset without content, with a URL, of a script type,
  with \<open>prettifyJs\<close> set: when the fetch fails, the URL passed to the host's download is
  the asset's URL unchanged, no object URL is created, and the result has
  \<open>success = True\<close> provided the host accepts that download request.
\<close>

theorem fetch_failure_downloads_reference:
  assumes "\<not> truthy (content a)" and "url a = Some u" and "u \<noteq> []"
    and "prettifyJs opts" and "includes_str ''js'' (atype a)"
    and "fetch_fails api u (hstate w)"
  shows "\<exists>w1 result w2.
           resolve_url api a opts w = (Inr u, w1) \<and>
           downloadFile api a opts w = (Inr result, w2) \<and>
           requests w2 = requests w @
             [\<lparr>req_url = u, req_filename = ''evil-downloads/'' @ filename a, saveAs = False,
               conflictAction = ''uniquify''\<rparr>] \<and>
           object_urls w2 = object_urls w \<and>
           (\<forall>did h. download api (hstate w1)
                \<lparr>req_url = u, req_filename = ''evil-downloads/'' @ filename a, saveAs = False,
                  conflictAction = ''uniquify''\<rparr> = (Inr did, h) \<longrightarrow>
              result = \<lparr>success = True, downloadId = Some did, error = None,
                 res_filename = filename a\<rparr>)"
proof -
  obtain h where f: "fetchExternalContent api u w = (None, w\<lparr>hstate := h\<rparr>)"
    using fetch_fails_None [OF assms(6)] by blast
  obtain c cs where u: "u = c # cs" using assms(3) by (cases u) auto
  have r: "resolve_url api a opts w = (Inr u, w\<lparr>hstate := h\<rparr>)"
    using assms(1,2,4,5) f u
    by (auto simp: resolve_url_def truthy_def split: option.splits list.splits)
  show ?thesis
    unfolding downloadFile_def downloadFile_try_def r
    by (auto simp: Let_def split: prod.splits sum.splits exn.splits)
qed

theorem fetch_failure_downloads_reference_witness:
  "\<not> truthy (content external_a) \<and> url external_a = Some ''https://x.test/a.js'' \<and>
   prettifyJs opts_on \<and> includes_str ''js'' (atype external_a) \<and>
   fetch_fails test_api ''https://x.test/a.js'' (hstate w0) \<and>
   (\<exists>w2. downloadFile test_api external_a opts_on w0 =
      (Inr \<lparr>success = True, downloadId = Some 0, error = None, res_filename = ''a.js''\<rparr>, w2) \<and>
      requests w2 =
        [\<lparr>req_url = ''https://x.test/a.js'', req_filename = ''evil-downloads/a.js'', saveAs = False,
           conflictAction = ''uniquify''\<rparr>])"
proof -
  have h: "\<not> truthy (content external_a)" "url external_a = Some ''https://x.test/a.js''"
    "''https://x.test/a.js'' \<noteq> []" "prettifyJs opts_on" "includes_str ''js'' (atype external_a)"
    "fetch_fails test_api ''https://x.test/a.js'' (hstate w0)"
    by (simp_all add: external_a_def truthy_def opts_on_def fetch_fails_def test_api_def)
  have d: "\<And>w1. download test_api (hstate w1)
      \<lparr>req_url = ''https://x.test/a.js'', req_filename = ''evil-downloads/'' @ filename external_a,
        saveAs = False, conflictAction = ''uniquify''\<rparr> = (Inr (hstate w1), Suc (hstate w1))"
    by (simp add: test_api_def external_a_def)
  have r: "resolve_url test_api external_a opts_on w0 = (Inr ''https://x.test/a.js'', w0)"
    by code_simp
  from fetch_failure_downloads_reference [OF h] obtain w1 result w2 where
    s: "resolve_url test_api external_a opts_on w0 = (Inr ''https://x.test/a.js'', w1)"
       "downloadFile test_api external_a opts_on w0 = (Inr result, w2)"
       "requests w2 = requests w0 @
             [\<lparr>req_url = ''https://x.test/a.js'', req_filename = ''evil-downloads/'' @ filename external_a,
               saveAs = False, conflictAction = ''uniquify''\<rparr>]"
       "\<forall>did h. download test_api (hstate w1)
                \<lparr>req_url = ''https://x.test/a.js'', req_filename = ''evil-downloads/'' @ filename external_a,
                  saveAs = False, conflictAction = ''uniquify''\<rparr> = (Inr did, h) \<longrightarrow>
              result = \<lparr>success = True, downloadId = Some did, error = None,
                 res_filename = filename external_a\<rparr>"
    by blast
  have "w1 = w0" using r s(1) by simp
  then have "result = \<lparr>success = True, downloadId = Some 0, error = None, res_filename = ''a.js''\<rparr>"
    using s(4) d [of w0] by (simp add: w0_def external_a_def)
  with s(2,3) h show ?thesis by (simp add: w0_def external_a_def)
qed

text \<open>
  Claim C2 as stated fails where the host refuses the download: the fetch fails, the
  code falls back to the URL, the download is refused, and the result has
  \<open>success = False\<close>.
\<close>

theorem fetch_failure_counterexample:
  "\<not> truthy (content external_colon) \<and> url external_colon = Some ''https://x.test/a:b.js'' \<and>
   prettifyJs opts_on \<and> includes_str ''js'' (atype external_colon) \<and>
   fetch_fails test_api ''https://x.test/a:b.js'' (hstate w0) \<and>
   fst (downloadFile test_api external_colon opts_on w0) =
     Inr \<lparr>success = False, downloadId = None, error = Some ''Invalid filename'',
        res_filename = ''a:b.js''\<rparr>"
  by code_simp

text \<open>
  Claim C9 at an input where the code breaks it: an inline script whose download the
  host refuses. The object URL has been created and no timer has been set, so nothing
  will revoke it.
\<close>

theorem handle_leaks_when_download_is_refused:
  "downloadFile refusing_api inline_ok opts_on w0 =
     (Inr \<lparr>success = False, downloadId = None, error = Some ''Download canceled'',
        res_filename = ''inline_script_1.js''\<rparr>,
      \<lparr>hstate = 0, timers = [], object_urls = [''blob:test/0''],
       requests = [\<lparr>req_url = ''blob:test/0'', req_filename = ''evil-downloads/inline_script_1.js'',
          saveAs = False, conflictAction = ''uniquify''\<rparr>]\<rparr>)"
  by code_simp



section \<open>Properties of the scanner\<close>

lemma getExternalScripts_loop_eq:
  "getExternalScripts_loop parse srcs scripts =
     scripts @ map (\<lambda>src. \<lparr>content = None, url = Some src,
         filename = (let filename = getFilenameFromUrl parse src
                     in if endsWith filename ''.js'' then filename else filename @ ''.js''),
         atype = ''external-js''\<rparr>)
       (filter (\<lambda>src. src \<noteq> [] \<and> (startsWith src ''http'' \<or> startsWith src ''//'')) srcs)"
  by (induction srcs arbitrary: scripts) (auto simp: Let_def)

lemma getIframeHtml_loop_eq:
  "getIframeHtml_loop parse srcs iframes =
     iframes @ map (\<lambda>src. \<lparr>content = None, url = Some src,
         filename = (let filename = getFilenameFromUrl parse src
                     in if \<not> endsWith filename ''.html'' then filename @ ''.html'' else filename),
         atype = ''iframe-html''\<rparr>)
       (filter (\<lambda>src. src \<noteq> [] \<and> (startsWith src ''http'' \<or> startsWith src ''//'')) srcs)"
  by (induction srcs arbitrary: iframes) (auto simp: Let_def)

lemma getInlineScripts_loop_eq:
  "getInlineScripts_loop index ts scripts =
     scripts @ map (\<lambda>(i, t). \<lparr>content = Some t, url = None,
         filename = ''inline_script_'' @ string_of_nat (i + 1) @ ''.js'', atype = ''inline-js''\<rparr>)
       (filter (\<lambda>(i, t). t \<noteq> [] \<and> trim t \<noteq> []) (enumerate index ts))"
  by (induction ts arbitrary: index scripts) auto

lemma map_snd_filter_enumerate:
  "map (\<lambda>x. Some (snd x)) (filter (\<lambda>x. P (snd x)) (enumerate n ts)) = map Some (filter P ts)"
  by (induction ts arbitrary: n) auto

text \<open>
  Claim C6. The list \<open>scanAllAssets\<close> returns is the descriptor of the page, then the
  external scripts, then the inline scripts when \<open>includeInline\<close> is set (none
  otherwise), then the frames. Its first descriptor has the type \<^verbatim>\<open>html\<close>; the external
  scripts have the type \<^verbatim>\<open>external-js\<close> and their URLs are those of the selected script
  elements in document order; the inline scripts have the type \<^verbatim>\<open>inline-js\<close> and their
  contents are those of the selected scripts with a body, in document order; the frames have
  the type \<^verbatim>\<open>iframe-html\<close> and their URLs are those of the selected frames in document
  order.
\<close>

theorem scan_order:
  "scanAllAssets parse opts p =
     getCurrentPageHtml parse p # getExternalScripts parse p @
       (if includeInline opts then getInlineScripts p else []) @ getIframeHtml parse p \<and>
   atype (hd (scanAllAssets parse opts p)) = ''html'' \<and>
   atype (getCurrentPageHtml parse p) = ''html'' \<and>
   map atype (getExternalScripts parse p) =
     replicate (length (getExternalScripts parse p)) ''external-js'' \<and>
   map url (getExternalScripts parse p) =
     map Some (filter (\<lambda>src. src \<noteq> [] \<and> (startsWith src ''http'' \<or> startsWith src ''//''))
       (select_script_src (elements p))) \<and>
   map atype (getInlineScripts p) = replicate (length (getInlineScripts p)) ''inline-js'' \<and>
   map content (getInlineScripts p) =
     map Some (filter (\<lambda>t. t \<noteq> [] \<and> trim t \<noteq> []) (select_script_not_src (elements p))) \<and>
   map atype (getIframeHtml parse p) = replicate (length (getIframeHtml parse p)) ''iframe-html'' \<and>
   map url (getIframeHtml parse p) =
     map Some (filter (\<lambda>src. src \<noteq> [] \<and> (startsWith src ''http'' \<or> startsWith src ''//''))
       (select_iframe_src (elements p)))"
proof -
  have s: "scanAllAssets parse opts p =
     getCurrentPageHtml parse p # getExternalScripts parse p @
       (if includeInline opts then getInlineScripts p else []) @ getIframeHtml parse p"
    by (simp add: scanAllAssets_def Let_def)
  have h: "atype (getCurrentPageHtml parse p) = ''html''"
    by (simp add: getCurrentPageHtml_def Let_def)
  have e: "map atype (getExternalScripts parse p) =
     replicate (length (getExternalScripts parse p)) ''external-js''"
    by (simp add: getExternalScripts_def getExternalScripts_loop_eq map_replicate_const o_def)
  have eu: "map url (getExternalScripts parse p) =
     map Some (filter (\<lambda>src. src \<noteq> [] \<and> (startsWith src ''http'' \<or> startsWith src ''//''))
       (select_script_src (elements p)))"
    by (simp add: getExternalScripts_def getExternalScripts_loop_eq o_def)
  have i: "map atype (getInlineScripts p) = replicate (length (getInlineScripts p)) ''inline-js''"
    by (simp add: getInlineScripts_def getInlineScripts_loop_eq map_replicate_const o_def
        case_prod_unfold)
  have ic: "map content (getInlineScripts p) =
     map Some (filter (\<lambda>t. t \<noteq> [] \<and> trim t \<noteq> []) (select_script_not_src (elements p)))"
    using map_snd_filter_enumerate [of "\<lambda>t. t \<noteq> [] \<and> trim t \<noteq> []" 0 "select_script_not_src (elements p)"]
    by (simp add: getInlineScripts_def getInlineScripts_loop_eq o_def case_prod_unfold)
  have f: "map atype (getIframeHtml parse p) = replicate (length (getIframeHtml parse p)) ''iframe-html''"
    by (simp add: getIframeHtml_def getIframeHtml_loop_eq map_replicate_const o_def)
  have fu: "map url (getIframeHtml parse p) =
     map Some (filter (\<lambda>src. src \<noteq> [] \<and> (startsWith src ''http'' \<or> startsWith src ''//''))
       (select_iframe_src (elements p)))"
    by (simp add: getIframeHtml_def getIframeHtml_loop_eq o_def)
  have hd: "atype (hd (scanAllAssets parse opts p)) = ''html''"
    using s h by simp
  show ?thesis
    using s hd h e eu i ic f fu by blast
qed

lemma filter_enumerate_all:
  "list_all P ts \<Longrightarrow> filter (\<lambda>(i, t). P t) (enumerate n ts) = enumerate n ts"
  by (induction ts arbitrary: n) auto

lemma map_fst_enumerate_upt:
  "map (\<lambda>x. f (fst x)) (enumerate n ts) = map f [n..<n + length ts]"
proof -
  have "map (\<lambda>x. f (fst x)) (enumerate n ts) = map f (map fst (enumerate n ts))"
    by (simp only: map_map o_def)
  then show ?thesis
    by (simp only: map_fst_enumerate)
qed

text \<open>
  Claim C7, as amended. The number in the name of an inline script is the position,
  counted from 1, of its element among all the script elements without a \<^verbatim>\<open>src\<close>
  attribute, blank ones included. When none of them is blank, the \<open>k\<close>-th descriptor is
  named \<^verbatim>\<open>inline_script_k.js\<close>.
\<close>

theorem inline_script_names:
  "getInlineScripts p =
     map (\<lambda>(i, t). \<lparr>content = Some t, url = None,
         filename = ''inline_script_'' @ string_of_nat (i + 1) @ ''.js'', atype = ''inline-js''\<rparr>)
       (filter (\<lambda>(i, t). t \<noteq> [] \<and> trim t \<noteq> [])
          (enumerate 0 (select_script_not_src (elements p)))) \<and>
   (list_all (\<lambda>t. t \<noteq> [] \<and> trim t \<noteq> []) (select_script_not_src (elements p)) \<longrightarrow>
      map filename (getInlineScripts p) =
        map (\<lambda>k. ''inline_script_'' @ string_of_nat (k + 1) @ ''.js'')
          [0..<length (getInlineScripts p)])"
proof -
  let ?ts = "select_script_not_src (elements p)"
  let ?mk = "\<lambda>(i, t). \<lparr>content = Some t, url = None,
         filename = ''inline_script_'' @ string_of_nat (i + 1) @ ''.js'', atype = ''inline-js''\<rparr>"
  have a: "getInlineScripts p =
      map ?mk (filter (\<lambda>(i, t). t \<noteq> [] \<and> trim t \<noteq> []) (enumerate 0 ?ts))"
    by (simp add: getInlineScripts_def getInlineScripts_loop_eq)
  have b: "map filename (getInlineScripts p) =
        map (\<lambda>k. ''inline_script_'' @ string_of_nat (k + 1) @ ''.js'')
          [0..<length (getInlineScripts p)]"
    if all: "list_all (\<lambda>t. t \<noteq> [] \<and> trim t \<noteq> []) ?ts"
  proof -
    have g: "getInlineScripts p = map ?mk (enumerate 0 ?ts)"
      using a filter_enumerate_all [OF all, of 0] by simp
    have "map filename (map ?mk (enumerate 0 ?ts)) =
        map (\<lambda>x. ''inline_script_'' @ string_of_nat (fst x + 1) @ ''.js'') (enumerate 0 ?ts)"
      by (simp add: o_def case_prod_unfold)
    also have "\<dots> = map (\<lambda>k. ''inline_script_'' @ string_of_nat (k + 1) @ ''.js'') [0..<0 + length ?ts]"
      by (rule map_fst_enumerate_upt)
    finally show ?thesis
      by (simp add: g)
  qed
  from a b show ?thesis by blast
qed

theorem inline_script_names_witness:
  "list_all (\<lambda>t. t \<noteq> [] \<and> trim t \<noteq> []) (select_script_not_src (elements page_two_inline)) \<and>
   map filename (getInlineScripts page_two_inline) = [''inline_script_1.js'', ''inline_script_2.js'']"
proof -
  have h: "list_all (\<lambda>t. t \<noteq> [] \<and> trim t \<noteq> []) (select_script_not_src (elements page_two_inline))"
    by code_simp
  have l: "length (getInlineScripts page_two_inline) = 2"
    by code_simp
  have n: "map (\<lambda>k. ''inline_script_'' @ string_of_nat (k + 1) @ ''.js'') [0..<2] =
      [''inline_script_1.js'', ''inline_script_2.js'']"
    by code_simp
  have "map filename (getInlineScripts page_two_inline) =
        map (\<lambda>k. ''inline_script_'' @ string_of_nat (k + 1) @ ''.js'')
          [0..<length (getInlineScripts page_two_inline)]"
    using h inline_script_names [of page_two_inline] by blast
  then have "map filename (getInlineScripts page_two_inline) =
      [''inline_script_1.js'', ''inline_script_2.js'']"
    unfolding l n .
  with h show ?thesis by blast
qed

text \<open>
  Claim C7 as stated fails on a page whose first script without \<^verbatim>\<open>src\<close> is blank: the
  only descriptor is the first one emitted, and its name carries the number 2.
\<close>

theorem inline_script_names_counterexample:
  "length (getInlineScripts page_blank_first) = 1 \<and>
   filename (getInlineScripts page_blank_first ! 0) = ''inline_script_2.js'' \<and>
   filename (getInlineScripts page_blank_first ! 0) \<noteq> ''inline_script_'' @ string_of_nat 1 @ ''.js''"
  by code_simp

lemma replace_all_Nil: "m [] = None \<Longrightarrow> replace_all m [] = []"
  by (simp add: replace_all.simps)

lemma replace_all_None: "m (c # cs) = None \<Longrightarrow> replace_all m (c # cs) = c # replace_all m cs"
  by (simp add: replace_all.simps)

lemma replace_all_Some:
  "m s = Some (rep, rest) \<Longrightarrow> length rest < length s \<Longrightarrow>
   replace_all m s = rep @ replace_all m rest"
  by (subst replace_all.simps) simp

lemma m_class_simps:
  "m_class P rep [] = None"
  "m_class P rep (c # cs) = (if P c then Some (rep, cs) else None)"
  by (simp_all add: m_class_def)

lemma m_plus_simps:
  "m_plus P rep [] = None"
  "m_plus P rep (c # cs) = (if P c then Some (rep, dropWhile P cs) else None)"
  by (simp_all add: m_plus_def)

lemma replace_all_m_class:
  "replace_all (m_class P rep) s = concat (map (\<lambda>c. if P c then rep else [c]) s)"
proof (induction s)
  case Nil
  show ?case by (simp add: replace_all_Nil m_class_simps)
next
  case (Cons c cs)
  then show ?case
    by (cases "P c") (simp_all add: replace_all_None replace_all_Some m_class_simps)
qed

lemma replace_all_m_plus_id:
  "list_all (\<lambda>c. \<not> P c) s \<Longrightarrow> replace_all (m_plus P rep) s = s"
proof (induction s)
  case Nil
  show ?case by (simp add: replace_all_Nil m_plus_simps)
next
  case (Cons c cs)
  then show ?case
    by (simp add: replace_all_None m_plus_simps)
qed

lemma concat_map_id:
  "list_all (\<lambda>c. \<not> P c) s \<Longrightarrow> concat (map (\<lambda>c. if P c then rep else [c]) s) = s"
  by (induction s) auto

lemma sanitizeFilename_clean:
  assumes "list_all (\<lambda>c. (is_word c \<or> c = CHR ''.'' \<or> c = CHR ''-'') \<and> c \<noteq> CHR ''_'') s"
  shows "sanitizeFilename s = take 200 s"
proof -
  have 1: "list_all (\<lambda>c. \<not> \<not> (is_word c \<or> is_space c \<or> c = CHR ''.'' \<or> c = CHR ''-'')) s"
    using assms by (induction s) auto
  have 2: "list_all (\<lambda>c. \<not> is_space c) s"
    using assms by (induction s) (auto simp: is_space_def is_word_def is_alpha_def is_digit_def Let_def)
  have 3: "list_all (\<lambda>c. \<not> c = CHR ''_'') s"
    using assms by (induction s) auto
  show ?thesis
    unfolding sanitizeFilename_def replace_all_m_class
    by (simp only: concat_map_id [OF 1] replace_all_m_plus_id [OF 2] replace_all_m_plus_id [OF 3])
qed

lemma split_on_not_Nil: "split_on sep s \<noteq> []"
  by (induction s) (auto split: list.splits)

lemma split_on_no_sep: "sep \<notin> set t \<Longrightarrow> split_on sep t = [t]"
  by (induction t) auto

lemma split_on_append:
  "split_on sep (s @ sep # t) = split_on sep s @ split_on sep t"
proof (induction s)
  case Nil
  show ?case by simp
next
  case (Cons c s)
  obtain l ls where "split_on sep s = l # ls"
    using split_on_not_Nil [of sep s] by (cases "split_on sep s") auto
  with Cons show ?case by simp
qed

lemma last_split_on:
  "sep \<notin> set t \<Longrightarrow> last (split_on sep (s @ sep # t)) = t"
  by (simp add: split_on_append split_on_no_sep)

lemma long_name:
  "filename (scanAllAssets test_parse opts_on page_long ! 0) = replicate 200 CHR ''a''"
proof -
  have p: "test_parse long_href = Some \<lparr>pathname = CHR ''/'' # replicate 200 CHR ''a'', hostname = ''x.test''\<rparr>"
    by (simp add: test_parse_def long_href_def)
  have l: "last (split_on CHR ''/'' ([] @ CHR ''/'' # replicate 200 CHR ''a'')) = replicate 200 CHR ''a''"
    by (rule last_split_on) simp
  have g: "getFilenameFromUrl test_parse long_href = replicate 200 CHR ''a''"
    using l by (simp add: getFilenameFromUrl_def p Let_def)
  have c: "list_all (\<lambda>c. (is_word c \<or> c = CHR ''.'' \<or> c = CHR ''-'') \<and> c \<noteq> CHR ''_'')
      (replicate 200 CHR ''a'' @ ''.html'')"
    by (simp add: list_all_iff is_word_def is_alpha_def Let_def)
  show ?thesis
    by (simp add: scanAllAssets_def getCurrentPageHtml_def page_long_def Let_def g
        sanitizeFilename_clean [OF c])
qed

text \<open>
  Claim C1 at two inputs where the code breaks it. The name of an external script is not
  passed through \<open>sanitizeFilename\<close>: a script at \<^verbatim>\<open>https://x.test/a@b.js\<close> is named
  \<^verbatim>\<open>a@b.js\<close>, which the naming rule refuses. The name of the page is cut to 200
  characters after the extension is added: for a path segment of 200 letters the
  extension is lost.
\<close>

theorem names_not_sanitized:
  "atype (scanAllAssets test_parse opts_on page_at ! 1) = ''external-js'' \<and>
   filename (scanAllAssets test_parse opts_on page_at ! 1) = ''a@b.js'' \<and>
   \<not> valid_name (filename (scanAllAssets test_parse opts_on page_at ! 1)) \<and>
   atype (scanAllAssets test_parse opts_on page_long ! 0) = ''html'' \<and>
   filename (scanAllAssets test_parse opts_on page_long ! 0) = replicate 200 CHR ''a'' \<and>
   \<not> endsWith (filename (scanAllAssets test_parse opts_on page_long ! 0)) ''.html''"
proof -
  have a: "scanAllAssets test_parse opts_on page_at ! 1 =
      \<lparr>content = None, url = Some ''https://x.test/a@b.js'', filename = ''a@b.js'',
        atype = ''external-js''\<rparr>"
    by (simp add: scanAllAssets_def getExternalScripts_def page_at_def opts_on_def Let_def
        getFilenameFromUrl_def test_parse_def startsWith_def endsWith_def)
  have v: "\<not> valid_name ''a@b.js''"
    by (simp add: valid_name_def is_word_def is_alpha_def is_digit_def Let_def)
  have t: "atype (scanAllAssets test_parse opts_on page_long ! 0) = ''html''"
    by (simp add: scanAllAssets_def getCurrentPageHtml_def Let_def)
  have e: "\<not> endsWith (replicate 200 CHR ''a'') ''.html''"
    by (simp add: endsWith_def eval_nat_numeral)
  show ?thesis
    using a v t e by (simp add: long_name)
qed

section \<open>Properties of the heuristic formatter\<close>

subsection \<open>White space and trimming\<close>

lemma is_space_nl [simp]: "is_space nl"
  by (simp add: is_space_def nl_def)

lemma blank_simps [simp]:
  "blank []"
  "blank (c # cs) = (is_space c \<and> blank cs)"
  "blank (xs @ ys) = (blank xs \<and> blank ys)"
  "blank (rev xs) = blank xs"
  by (auto simp: blank_def list_all_iff)

lemma blank_takeWhile [simp]: "blank (takeWhile is_space s)"
  by (induction s) auto

lemma dropWhile_blank: "blank w \<Longrightarrow> dropWhile is_space (w @ x) = dropWhile is_space x"
  by (induction w) auto

lemma dropWhile_blank_Nil: "blank w \<Longrightarrow> dropWhile is_space w = []"
  by (induction w) auto

lemma dropWhile_Nil_blank: "dropWhile is_space w = [] \<Longrightarrow> blank w"
  by (induction w) (auto split: if_splits)

lemma dropWhile_core: "x \<noteq> [] \<Longrightarrow> \<not> is_space (hd x) \<Longrightarrow> dropWhile is_space (x @ y) = x @ y"
  by (cases x) auto

lemma trim_core:
  assumes "core m" and "blank w1" and "blank w2"
  shows "trim (w1 @ m @ w2) = m"
proof (cases "m = []")
  case True
  then show ?thesis
    using assms by (simp add: trim_def dropWhile_blank_Nil)
next
  case False
  then have h: "\<not> is_space (hd m)" and l: "\<not> is_space (last m)"
    using assms(1) by (auto simp: core_def)
  have 1: "dropWhile is_space (w1 @ m @ w2) = m @ w2"
    using False h assms(2) by (simp add: dropWhile_blank dropWhile_core)
  have "hd (rev m) = last m"
    using False by (simp add: hd_rev)
  then have 2: "dropWhile is_space (rev w2 @ rev m @ []) = rev m @ []"
    using False l assms(3) by (simp only: dropWhile_blank blank_simps) (simp add: dropWhile_core [of "rev m" "[]", simplified])
  show ?thesis
    using 2 by (simp add: trim_def 1)
qed

lemma trim_decomp:
  "\<exists>w1 w2. blank w1 \<and> blank w2 \<and> s = w1 @ trim s @ w2 \<and> core (trim s)"
proof -
  define d where "d = dropWhile is_space s"
  define e where "e = dropWhile is_space (rev d)"
  define t2 where "t2 = takeWhile is_space (rev d)"
  have t: "trim s = rev e"
    by (simp add: trim_def d_def e_def)
  have "rev d = t2 @ e"
    by (simp add: t2_def e_def)
  then have d: "d = rev e @ rev t2"
    by (metis rev_append rev_rev_ident)
  have "s = takeWhile is_space s @ d"
    by (simp add: d_def)
  then have s: "s = takeWhile is_space s @ rev e @ rev t2"
    using d by simp
  have c: "core (rev e)"
  proof (cases "e = []")
    case True
    then show ?thesis by (simp add: core_def)
  next
    case False
    then have he: "\<not> is_space (hd e)"
      unfolding e_def by (rule hd_dropWhile)
    have "d \<noteq> []" using False d by auto
    then have hd: "\<not> is_space (hd d)"
      unfolding d_def by (rule hd_dropWhile)
    have "hd d = hd (rev e)"
      using d False by simp
    with he hd False show ?thesis
      by (simp add: core_def last_rev)
  qed
  have "blank (rev t2)" by (simp add: t2_def)
  with s c t show ?thesis
    by (metis blank_takeWhile)
qed

lemma trim_trim [simp]: "trim (trim s) = trim s"
proof -
  obtain w1 w2 where "core (trim s)"
    using trim_decomp [of s] by blast
  then show ?thesis
    using trim_core [of "trim s" "[]" "[]"] by simp
qed

lemma trim_Nil_iff: "trim s = [] \<longleftrightarrow> blank s"
proof
  assume "trim s = []"
  then show "blank s"
    using trim_decomp [of s] by auto
next
  assume "blank s"
  then show "trim s = []"
    using trim_core [of "[]" s "[]"] by (simp add: core_def)
qed

lemma trim_blank_prefix: "blank w \<Longrightarrow> trim (w @ s) = trim s"
proof -
  assume w: "blank w"
  obtain w1 w2 where d: "blank w1" "blank w2" "s = w1 @ trim s @ w2" "core (trim s)"
    using trim_decomp [of s] by blast
  have "trim ((w @ w1) @ trim s @ w2) = trim s"
    using d w by (intro trim_core) simp_all
  then show ?thesis using d(3) by (metis append.assoc)
qed

subsection \<open>The replacements as functions on characters and lines\<close>

lemma break_replacements:
  "replace_all (m_class (\<lambda>c. c = CHR 0x7D) [nl, CHR 0x7D, nl])
     (replace_all (m_class (\<lambda>c. c = CHR 0x7B) [CHR 0x7B, nl])
       (replace_all (m_class (\<lambda>c. c = CHR '';'') [CHR '';'', nl]) s)) = ins_breaks s"
  unfolding replace_all_m_class ins_breaks_def
  by (induction s) (auto simp: brk_char_def nl_def)

lemma ident_follows_append:
  "ident_follows (x @ y) = (if blank x then ident_follows y else ident_follows x)"
proof (cases "blank x")
  case True
  then show ?thesis by (simp add: ident_follows_def dropWhile_blank)
next
  case False
  then have "dropWhile is_space x \<noteq> []"
    using dropWhile_Nil_blank by blast
  then show ?thesis
    using False by (auto simp: ident_follows_def dropWhile_append split: list.splits)
qed

lemma comma_breaks_append:
  "comma_breaks b (x @ y) =
     comma_breaks (if blank y then b else ident_follows y) x @ comma_breaks b y"
  by (induction x) (auto simp: ident_follows_append)

lemma comma_breaks_no_comma:
  "CHR '','' \<notin> set x \<Longrightarrow> comma_breaks b x = x"
  by (induction x) auto

lemma not_space_comma: "\<not> is_space CHR '',''"
  by (simp add: is_space_def)

lemma not_ident_comma: "\<not> is_ident_start CHR '',''"
  by (simp add: is_ident_start_def is_alpha_def)

lemma m_comma_simps:
  "m_comma [] = None"
  "c \<noteq> CHR '','' \<Longrightarrow> m_comma (c # cs) = None"
  "m_comma (CHR '','' # cs) =
     (case dropWhile is_space cs of
        [] \<Rightarrow> None
      | l # rest \<Rightarrow>
          if is_ident_start l then Some (CHR '','' # nl # takeWhile is_space cs @ [l], rest)
          else None)"
  by (simp_all add: m_comma_def)

lemma comma_replacement: "replace_all m_comma s = comma_breaks False s"
proof (induction s rule: length_induct)
  case (1 s)
  show ?case
  proof (cases s)
    case Nil
    then show ?thesis by (simp add: replace_all_Nil m_comma_simps)
  next
    case (Cons c cs)
    show ?thesis
    proof (cases "c = CHR '',''")
      case False
      then show ?thesis
        using 1 Cons by (simp add: replace_all_None m_comma_simps)
    next
      case True
      show ?thesis
      proof (cases "dropWhile is_space cs")
        case Nil
        then have "blank cs" by (rule dropWhile_Nil_blank)
        moreover have "m_comma (CHR '','' # cs) = None"
          by (simp only: m_comma_simps Nil list.case)
        ultimately show ?thesis
          using 1 Cons True by (simp add: replace_all_None)
      next
        case d: (Cons l rest)
        have nb: "\<not> blank cs"
          using d dropWhile_blank_Nil by fastforce
        have f: "ident_follows cs = is_ident_start l"
          by (simp add: ident_follows_def d)
        show ?thesis
        proof (cases "is_ident_start l")
          case False
          then show ?thesis
            using 1 Cons True d nb f by (simp add: replace_all_None m_comma_simps)
        next
          case l: True
          have cs: "cs = (takeWhile is_space cs @ [l]) @ rest"
            using d by (metis append.assoc append_Cons append_Nil takeWhile_dropWhile_id)
          have len: "length rest < length s"
            using Cons cs by (metis add_lessD1 impossible_Cons leI length_append length_Cons
                less_Suc_eq_le trans_less_add2 nat_less_le not_less_eq)
          have nc: "CHR '','' \<notin> set (takeWhile is_space cs @ [l])"
            using l not_ident_comma not_space_comma by (auto dest: set_takeWhileD)
          have "replace_all m_comma s =
              (CHR '','' # nl # takeWhile is_space cs @ [l]) @ replace_all m_comma rest"
            using Cons True d l len by (intro replace_all_Some) (simp_all add: m_comma_simps)
          also have "\<dots> = (CHR '','' # nl # takeWhile is_space cs @ [l]) @ comma_breaks False rest"
            using 1 len by simp
          also have "\<dots> = CHR '','' # nl # comma_breaks False ((takeWhile is_space cs @ [l]) @ rest)"
            unfolding comma_breaks_append [of False "takeWhile is_space cs @ [l]" rest]
            using comma_breaks_no_comma [OF nc] by simp
          also have "\<dots> = comma_breaks False s"
            using Cons True nb f l cs by simp
          finally show ?thesis .
        qed
      qed
    qed
  qed
qed

subsection \<open>The blank-line replacement on lines\<close>

lemma split_on_Cons_nl: "split_on nl (nl # cs) = [] # split_on nl cs"
  by simp

lemma split_on_Cons_other:
  "c \<noteq> nl \<Longrightarrow> split_on nl cs = l # ls \<Longrightarrow> split_on nl (c # cs) = (c # l) # ls"
  by simp

lemma rest_norm_blank: "blank l \<Longrightarrow> ls \<noteq> [] \<Longrightarrow> rest_norm (l # ls) = rest_norm ls"
  by (cases ls) auto

lemma rest_norm_keep: "ls = [] \<or> \<not> blank l \<Longrightarrow> rest_norm (l # ls) = l # rest_norm ls"
  by (cases ls) auto

lemma match_ws_nl_lines:
  "split_on nl cs = l # ls \<Longrightarrow>
   (match_ws_nl cs = None \<longrightarrow> (ls = [] \<or> \<not> blank l)) \<and>
   (\<forall>r. match_ws_nl cs = Some r \<longrightarrow>
      length r < length cs \<and> blank l \<and> ls \<noteq> [] \<and> match_ws_nl r = None \<and>
      rest_norm (l # ls) = norm_lines (split_on nl r))"
proof (induction cs arbitrary: l ls)
  case Nil
  then show ?case by simp
next
  case (Cons c cs)
  obtain l' ls' where s: "split_on nl cs = l' # ls'"
    using split_on_not_Nil [of nl cs] by (cases "split_on nl cs") auto
  note IH = Cons.IH [OF s]
  show ?case
  proof (cases "is_space c")
    case False
    then have "c \<noteq> nl" by auto
    then have "l = c # l'" "ls = ls'"
      using Cons.prems s by auto
    then show ?thesis using False by simp
  next
    case sp: True
    show ?thesis
    proof (cases "match_ws_nl cs")
      case (Some r)
      then have r: "length r < length cs" "blank l'" "ls' \<noteq> []" "match_ws_nl r = None"
          "rest_norm (l' # ls') = norm_lines (split_on nl r)"
        using IH by auto
      have "rest_norm (l # ls) = rest_norm (l' # ls')"
      proof (cases "c = nl")
        case True
        then have "l = []" "ls = l' # ls'" using Cons.prems s by auto
        then show ?thesis by (simp add: rest_norm_blank)
      next
        case False
        then have "l = c # l'" "ls = ls'" using Cons.prems s by auto
        then show ?thesis using r(2,3) sp by (simp add: rest_norm_blank)
      qed
      moreover have "blank l \<and> ls \<noteq> []"
        using Cons.prems s r(2,3) sp by (cases "c = nl") auto
      ultimately show ?thesis
        using Some sp r by simp
    next
      case None
      then have n: "ls' = [] \<or> \<not> blank l'" using IH by simp
      show ?thesis
      proof (cases "c = nl")
        case True
        then have e: "l = []" "ls = l' # ls'" using Cons.prems s by auto
        have "rest_norm (l # ls) = rest_norm (l' # ls')"
          using e by (simp add: rest_norm_blank)
        also have "\<dots> = norm_lines (split_on nl cs)"
          using n s by (simp add: norm_lines_def rest_norm_keep)
        finally show ?thesis
          using None True e by simp
      next
        case False
        then have "l = c # l'" "ls = ls'" using Cons.prems s by auto
        then show ?thesis
          using None False sp n by auto
      qed
    qed
  qed
qed

lemma m_blank_simps:
  "m_blank [] = None"
  "c \<noteq> nl \<Longrightarrow> m_blank (c # cs) = None"
  "m_blank (nl # cs) = (case match_ws_nl cs of Some rest \<Rightarrow> Some ([nl], rest) | None \<Rightarrow> None)"
  by (simp_all add: m_blank_def)

lemma blank_replacement_lines:
  "split_on nl (replace_all m_blank t) = norm_lines (split_on nl t)"
proof (induction t rule: length_induct)
  case (1 t)
  show ?case
  proof (cases t)
    case Nil
    then show ?thesis by (simp add: replace_all_Nil m_blank_simps norm_lines_def)
  next
    case (Cons c cs)
    obtain l ls where s: "split_on nl cs = l # ls"
      using split_on_not_Nil [of nl cs] by (cases "split_on nl cs") auto
    have IH: "split_on nl (replace_all m_blank u) = norm_lines (split_on nl u)"
      if "length u \<le> length cs" for u
      using 1 Cons that by simp
    show ?thesis
    proof (cases "c = nl")
      case False
      have "split_on nl (replace_all m_blank cs) = l # rest_norm ls"
        using IH [of cs] s by (simp add: norm_lines_def)
      then show ?thesis
        using Cons False s by (simp add: replace_all_None m_blank_simps norm_lines_def)
    next
      case True
      show ?thesis
      proof (cases "match_ws_nl cs")
        case None
        then have "rest_norm (l # ls) = l # rest_norm ls"
          using match_ws_nl_lines [OF s] by (simp add: rest_norm_keep)
        then show ?thesis
          using Cons True None s IH [of cs]
          by (simp add: replace_all_None m_blank_simps norm_lines_def)
      next
        case (Some r)
        then have r: "length r < length cs" "rest_norm (l # ls) = norm_lines (split_on nl r)"
          using match_ws_nl_lines [OF s] by auto
        have "replace_all m_blank t = [nl] @ replace_all m_blank r"
          using Cons True Some r(1) by (intro replace_all_Some) (simp_all add: m_blank_simps)
        then show ?thesis
          using Cons True s r IH [of r] by (simp add: norm_lines_def)
      qed
    qed
  qed
qed

subsection \<open>The last replacement changes nothing\<close>

lemma m_nl3_None: "no_nlnl s \<Longrightarrow> m_nl3 s = None"
proof (cases s)
  case Nil
  then show ?thesis by (simp add: m_nl3_def)
next
  case (Cons a t)
  assume n: "no_nlnl s"
  show ?thesis
  proof (cases t)
    case Nil
    then show ?thesis using Cons by (simp add: m_nl3_def)
  next
    case c2: (Cons b u)
    then show ?thesis using Cons n by (auto simp: m_nl3_def)
  qed
qed

lemma no_nlnl_tl: "no_nlnl (c # cs) \<Longrightarrow> no_nlnl cs"
  by (cases cs) auto

lemma nl3_replacement_id: "no_nlnl s \<Longrightarrow> replace_all m_nl3 s = s"
proof (induction s)
  case Nil
  then show ?case by (simp add: replace_all_Nil m_nl3_None)
next
  case (Cons c cs)
  then show ?case
    using m_nl3_None [of "c # cs"] no_nlnl_tl [of c cs] by (simp add: replace_all_None)
qed

lemma match_ws_nl_None_hd: "match_ws_nl r = None \<Longrightarrow> r = [] \<or> hd r \<noteq> nl"
  by (cases r) (auto split: option.splits if_splits)

lemma hd_blank_replacement: "r \<noteq> [] \<Longrightarrow> replace_all m_blank r \<noteq> [] \<and> hd (replace_all m_blank r) = hd r"
proof (cases r)
  case Nil
  assume "r \<noteq> []"
  with Nil show ?thesis by simp
next
  case (Cons c cs)
  show ?thesis
  proof (cases "m_blank r")
    case None
    then show ?thesis using Cons by (simp add: replace_all_None)
  next
    case (Some p)
    obtain rep rest where p: "p = (rep, rest)" by (cases p)
    have c: "c = nl" using Some Cons by (cases "c = nl") (simp_all add: m_blank_simps)
    then have rep: "rep = [nl]" and m: "match_ws_nl cs = Some rest"
      using Some Cons p by (auto simp: m_blank_simps split: option.splits)
    have "length rest < length r"
      using m Cons match_ws_nl_lines [of cs] split_on_not_Nil [of nl cs]
      by (cases "split_on nl cs") auto
    then have "replace_all m_blank r = [nl] @ replace_all m_blank rest"
      using Some p rep by (intro replace_all_Some) simp_all
    then show ?thesis using Cons c by simp
  qed
qed

lemma no_nlnl_Cons: "no_nlnl u \<Longrightarrow> u = [] \<or> \<not> (c = nl \<and> hd u = nl) \<Longrightarrow> no_nlnl (c # u)"
  by (cases u) auto

lemma no_nlnl_blank_replacement: "no_nlnl (replace_all m_blank t)"
proof (induction t rule: length_induct)
  case (1 t)
  show ?case
  proof (cases t)
    case Nil
    then show ?thesis by (simp add: replace_all_Nil m_blank_simps)
  next
    case (Cons c cs)
    obtain l ls where s: "split_on nl cs = l # ls"
      using split_on_not_Nil [of nl cs] by (cases "split_on nl cs") auto
    have IH: "no_nlnl (replace_all m_blank u)" if "length u \<le> length cs" for u
      using 1 Cons that by simp
    show ?thesis
    proof (cases "c = nl")
      case False
      then show ?thesis
        using Cons IH [of cs] by (simp add: replace_all_None m_blank_simps no_nlnl_Cons)
    next
      case True
      show ?thesis
      proof (cases "match_ws_nl cs")
        case None
        then have "cs = [] \<or> hd cs \<noteq> nl" by (rule match_ws_nl_None_hd)
        then have "replace_all m_blank cs = [] \<or> hd (replace_all m_blank cs) \<noteq> nl"
          using hd_blank_replacement [of cs] by (cases "cs = []") (auto simp: replace_all_Nil m_blank_simps)
        then show ?thesis
          using Cons True None IH [of cs] by (simp add: replace_all_None m_blank_simps no_nlnl_Cons)
      next
        case (Some r)
        then have r: "length r < length cs" "match_ws_nl r = None"
          using match_ws_nl_lines [OF s] by auto
        have e: "replace_all m_blank t = nl # replace_all m_blank r"
          using Cons True Some r(1) replace_all_Some [of m_blank t "[nl]" r] by (simp add: m_blank_simps)
        have "r = [] \<or> hd r \<noteq> nl" using r(2) by (rule match_ws_nl_None_hd)
        then have "replace_all m_blank r = [] \<or> hd (replace_all m_blank r) \<noteq> nl"
          using hd_blank_replacement [of r] by (cases "r = []") (auto simp: replace_all_Nil m_blank_simps)
        then show ?thesis
          using e IH [of r] r(1) by (simp add: no_nlnl_Cons)
      qed
    qed
  qed
qed

lemma basicBeautify_text_lines:
  "basicBeautify_text code =
     join [nl] (indent_lines 0 (norm_lines (split_on nl (comma_breaks False (ins_breaks code)))))"
  unfolding basicBeautify_text_def Let_def break_replacements comma_replacement
  by (simp add: nl3_replacement_id no_nlnl_blank_replacement blank_replacement_lines)

subsection \<open>The shape of the lines after the replacements\<close>

lemma ins_breaks_simps [simp]:
  "ins_breaks [] = []"
  "ins_breaks (c # cs) = brk_char c @ ins_breaks cs"
  "ins_breaks (x @ y) = ins_breaks x @ ins_breaks y"
  by (simp_all add: ins_breaks_def)

lemma ident_follows_blank: "blank x \<Longrightarrow> \<not> ident_follows x"
  by (simp add: ident_follows_def dropWhile_blank_Nil)

lemma ident_follows_Cons:
  "ident_follows (c # cs) = (if is_space c then ident_follows cs else is_ident_start c)"
  by (simp add: ident_follows_def)

lemma ident_follows_comma_breaks: "ident_follows (comma_breaks b x) = ident_follows x"
  by (induction x) (auto simp: ident_follows_Cons not_space_comma not_ident_comma)

lemma blank_comma_breaks: "blank (comma_breaks b x) = blank x"
  by (induction x) (auto simp: not_space_comma)

lemma ident_follows_first_line:
  "split_on nl x = p # ps \<Longrightarrow> ident_follows p \<Longrightarrow> ident_follows x"
proof (induction x arbitrary: p ps)
  case Nil
  then show ?case by simp
next
  case (Cons c cs)
  obtain l ls where s: "split_on nl cs = l # ls"
    using split_on_not_Nil [of nl cs] by (cases "split_on nl cs") auto
  show ?case
  proof (cases "c = nl")
    case True
    then have "p = []" using Cons.prems(1) by simp
    then show ?thesis using Cons.prems(2) by (simp add: ident_follows_def)
  next
    case False
    then have "p = c # l" using Cons.prems(1) s by simp
    then show ?thesis
      using Cons.prems(2) Cons.IH [OF s] by (auto simp: ident_follows_Cons split: if_splits)
  qed
qed

lemma line_ok_Nil [simp]: "line_ok []"
  by (simp add: line_ok_def)

lemma line_ok_single: "c \<noteq> nl \<Longrightarrow> line_ok [c]"
  by (auto simp: line_ok_def)

lemma line_ok_Cons:
  assumes "line_ok p" and "rbrace \<notin> set p" and "c \<noteq> nl" and "c \<noteq> rbrace" and "\<not> breaks_after c"
    and "c \<noteq> CHR '','' \<or> blank p \<or> \<not> ident_follows p"
  shows "line_ok (c # p)"
  using assms by (cases p) (auto simp: line_ok_def)

lemma brk_char_nl [simp]: "brk_char nl = [nl]"
  by (simp add: brk_char_def nl_def)

lemma lines_ok_breaks: "lines_ok (split_on nl (comma_breaks b (ins_breaks s)))"
proof (induction s)
  case Nil
  show ?case by (simp add: lines_ok_def)
next
  case (Cons c s)
  let ?x = "ins_breaks s"
  obtain p ps where F: "split_on nl (comma_breaks b ?x) = p # ps"
    using split_on_not_Nil [of nl "comma_breaks b ?x"] by (cases "split_on nl (comma_breaks b ?x)") auto
  have ok: "list_all line_ok (p # ps)" "rbrace \<notin> set p"
      "list_all (\<lambda>c. \<not> breaks_after c \<and> c \<noteq> rbrace) (last (p # ps))"
    using Cons F by (simp_all add: lines_ok_def)
  have nc: "nl \<noteq> CHR '',''" "CHR '';'' \<noteq> CHR '',''" "CHR 0x7B \<noteq> CHR '',''" "CHR 0x7D \<noteq> CHR '',''"
      "CHR '';'' \<noteq> nl" "CHR 0x7B \<noteq> nl" "CHR 0x7D \<noteq> nl" "CHR '','' \<noteq> nl"
    by (simp_all add: nl_def)
  consider (semi) "c = CHR '';'' \<or> c = CHR 0x7B" | (rb) "c = CHR 0x7D" | (newline) "c = nl"
    | (comma) "c = CHR '',''" | (other) "c \<noteq> CHR '';''" "c \<noteq> CHR 0x7B" "c \<noteq> CHR 0x7D" "c \<noteq> nl" "c \<noteq> CHR '',''"
    by blast
  then show ?case
  proof cases
    case semi
    then have "split_on nl (comma_breaks b (ins_breaks (c # s))) = [c] # p # ps"
      using F nc by (auto simp: brk_char_def)
    moreover have "line_ok [c]" "rbrace \<notin> set [c]"
      using semi nc by (auto simp: line_ok_def rbrace_def)
    ultimately show ?thesis using ok by (simp add: lines_ok_def)
  next
    case rb
    then have "split_on nl (comma_breaks b (ins_breaks (c # s))) = [] # [c] # p # ps"
      using F nc by (auto simp: brk_char_def)
    moreover have "line_ok [c]"
      using rb nc by (auto simp: line_ok_def rbrace_def)
    ultimately show ?thesis using ok by (simp add: lines_ok_def)
  next
    case newline
    then have "split_on nl (comma_breaks b (ins_breaks (c # s))) = [] # p # ps"
      using F nc by auto
    then show ?thesis using ok by (simp add: lines_ok_def)
  next
    case comma
    show ?thesis
    proof (cases "if blank ?x then b else ident_follows ?x")
      case True
      then have "split_on nl (comma_breaks b (ins_breaks (c # s))) = [c] # p # ps"
        using F nc comma by (auto simp: brk_char_def)
      moreover have "line_ok [c]" "rbrace \<notin> set [c]"
        using comma nc by (auto simp: line_ok_def rbrace_def)
      ultimately show ?thesis using ok by (simp add: lines_ok_def)
    next
      case False
      then have e: "split_on nl (comma_breaks b (ins_breaks (c # s))) = (c # p) # ps"
        using F nc comma by (auto simp: brk_char_def)
      have "\<not> ident_follows p"
      proof
        assume "ident_follows p"
        then have "ident_follows (comma_breaks b ?x)"
          using F ident_follows_first_line by blast
        then have "ident_follows ?x"
          by (simp add: ident_follows_comma_breaks)
        then show False
          using False ident_follows_blank [of ?x] by (cases "blank ?x") simp_all
      qed
      then have "line_ok (c # p)"
        using ok comma nc by (intro line_ok_Cons) (auto simp: rbrace_def breaks_after_def)
      moreover have "\<not> breaks_after c \<and> c \<noteq> rbrace"
        using comma by (simp add: breaks_after_def rbrace_def)
      ultimately show ?thesis
        using e ok by (cases ps) (auto simp: lines_ok_def rbrace_def)
    qed
  next
    case other
    then have e: "split_on nl (comma_breaks b (ins_breaks (c # s))) = (c # p) # ps"
      using F by (auto simp: brk_char_def)
    have "line_ok (c # p)"
      using ok other by (intro line_ok_Cons) (auto simp: rbrace_def breaks_after_def)
    moreover have "\<not> breaks_after c \<and> c \<noteq> rbrace"
      using other by (simp add: breaks_after_def rbrace_def)
    ultimately show ?thesis
      using e ok by (cases ps) (auto simp: lines_ok_def rbrace_def)
  qed
qed

subsection \<open>The lines of the output\<close>

lemma rest_norm_Nil_iff [simp]: "rest_norm ps = [] \<longleftrightarrow> ps = []"
  by (induction ps rule: rest_norm.induct) auto

lemma set_rest_norm: "set (rest_norm ps) \<subseteq> set ps"
  by (induction ps rule: rest_norm.induct) auto

lemma last_rest_norm: "ps \<noteq> [] \<Longrightarrow> last (rest_norm ps) = last ps"
  by (induction ps rule: rest_norm.induct) auto

lemma butlast_rest_norm: "list_all (\<lambda>l. \<not> blank l) (butlast (rest_norm ps))"
  by (induction ps rule: rest_norm.induct) auto

lemma lines_ok_norm: "lines_ok ls \<Longrightarrow> lines_ok (norm_lines ls)"
proof (cases ls)
  case Nil
  assume "lines_ok ls"
  with Nil show ?thesis by (simp add: lines_ok_def)
next
  case (Cons p ps)
  assume ok: "lines_ok ls"
  have "list_all line_ok (rest_norm ps)"
    using ok Cons set_rest_norm [of ps] by (auto simp: lines_ok_def list_all_iff)
  moreover have "last (p # rest_norm ps) = last (p # ps)"
    by (cases "ps = []") (simp_all add: last_rest_norm)
  ultimately show ?thesis
    using ok Cons by (simp add: lines_ok_def norm_lines_def del: last.simps)
qed

lemma set_trim: "set (trim l) \<subseteq> set l"
  using trim_decomp [of l] by (metis Un_iff set_append subsetI)

lemma blank_trim [simp]: "blank (trim l) = blank l"
proof -
  obtain w1 w2 where d: "blank w1" "blank w2" "l = w1 @ trim l @ w2"
    using trim_decomp [of l] by blast
  have "blank l = blank (w1 @ trim l @ w2)" using d(3) by simp
  then show ?thesis using d(1,2) by simp
qed

lemma core_trim [simp]: "core (trim l)"
  using trim_decomp [of l] by blast

lemma core_last: "core n \<Longrightarrow> n \<noteq> [] \<Longrightarrow> \<not> is_space (last n)"
  by (simp add: core_def)

lemma comma_ok_suffix: "comma_ok (x @ y) \<Longrightarrow> comma_ok y"
  by (induction x) auto

lemma comma_ok_blank_tail: "blank w \<Longrightarrow> comma_ok (m @ w) \<Longrightarrow> comma_ok m"
proof (induction m)
  case Nil
  show ?case by simp
next
  case (Cons c m)
  have "blank m \<or> \<not> ident_follows m" if "blank (m @ w) \<or> \<not> ident_follows (m @ w)"
    using that Cons.prems(1) by (auto simp: ident_follows_append split: if_splits)
  then show ?case using Cons by auto
qed

lemma butlast_mid: "m \<noteq> [] \<Longrightarrow> set (butlast m) \<subseteq> set (butlast (w1 @ m @ w2))"
proof -
  assume m: "m \<noteq> []"
  have "butlast (w1 @ m @ w2) = w1 @ butlast (m @ w2)"
    using m by (simp add: butlast_append)
  moreover have "set (butlast m) \<subseteq> set (butlast (m @ w2))"
    using m by (cases "w2 = []") (auto simp: butlast_append dest: in_set_butlastD)
  ultimately show ?thesis by auto
qed

lemma line_ok_trim: "line_ok l \<Longrightarrow> line_ok (trim l)"
proof -
  assume ok: "line_ok l"
  obtain w1 w2 where d: "blank w1" "blank w2" "l = w1 @ trim l @ w2" "core (trim l)"
    using trim_decomp [of l] by blast
  have 1: "nl \<notin> set (trim l)"
    using ok set_trim [of l] by (auto simp: line_ok_def)
  have 2: "trim l = [rbrace] \<or> rbrace \<notin> set (trim l)"
  proof (cases "l = [rbrace]")
    case True
    have "core [rbrace]" by (simp add: core_def rbrace_def is_space_def)
    then have "trim ([] @ [rbrace] @ []) = [rbrace]" by (intro trim_core) simp_all
    then show ?thesis using True by simp
  next
    case False
    then show ?thesis using ok set_trim [of l] by (auto simp: line_ok_def)
  qed
  have 3: "list_all (\<lambda>c. \<not> breaks_after c) (butlast (trim l))"
  proof (cases "trim l = []")
    case True
    then show ?thesis by simp
  next
    case False
    then have "set (butlast (trim l)) \<subseteq> set (butlast l)"
      using butlast_mid [of "trim l" w1 w2] d(3) by simp
    then show ?thesis using ok by (auto simp: line_ok_def list_all_iff)
  qed
  have "comma_ok (w1 @ trim l @ w2)" using ok d(3) by (simp add: line_ok_def)
  then have "comma_ok (trim l @ w2)" by (rule comma_ok_suffix)
  then have 4: "comma_ok (trim l)" using d(2) comma_ok_blank_tail by blast
  show ?thesis using 1 2 3 4 by (simp add: line_ok_def)
qed

lemma lines_ok_trim: "lines_ok ls \<Longrightarrow> lines_ok (map trim ls)"
proof -
  assume ok: "lines_ok ls"
  then have ne: "ls \<noteq> []" by (simp add: lines_ok_def)
  have "list_all line_ok (map trim ls)"
    using ok line_ok_trim by (auto simp: lines_ok_def list_all_iff)
  moreover have "rbrace \<notin> set (hd (map trim ls))"
    using ok ne set_trim [of "hd ls"] by (auto simp: lines_ok_def hd_map)
  moreover have "list_all (\<lambda>c. \<not> breaks_after c \<and> c \<noteq> rbrace) (last (map trim ls))"
    using ok ne set_trim [of "last ls"] by (auto simp: lines_ok_def last_map list_all_iff)
  ultimately show ?thesis using ne by (simp add: lines_ok_def)
qed

lemma normal_lines_output:
  "normal_lines (map trim (norm_lines (split_on nl (comma_breaks False (ins_breaks s)))))"
proof -
  let ?ls = "split_on nl (comma_breaks False (ins_breaks s))"
  have "lines_ok (map trim (norm_lines ?ls))"
    by (intro lines_ok_trim lines_ok_norm lines_ok_breaks)
  moreover have "list_all core (map trim (norm_lines ?ls))"
    by (simp add: list_all_iff)
  moreover have "list_all (\<lambda>l. \<not> blank l) (butlast (tl (map trim (norm_lines ?ls))))"
  proof (cases ?ls)
    case Nil
    then show ?thesis by (simp add: norm_lines_def)
  next
    case (Cons p ps)
    have "list_all (\<lambda>l. \<not> blank l) (butlast (map trim (rest_norm ps)))"
      using butlast_rest_norm [of ps] by (simp add: map_butlast [symmetric] list_all_iff)
    then show ?thesis using Cons by (simp add: norm_lines_def)
  qed
  ultimately show ?thesis by (simp add: normal_lines_def)
qed

subsection \<open>Formatting the output again\<close>

lemma not_space_breaks: "is_space c \<Longrightarrow> \<not> breaks_after c \<and> c \<noteq> rbrace \<and> c \<noteq> CHR '',''"
  by (auto simp: is_space_def breaks_after_def rbrace_def)

lemma ins_breaks_id:
  "list_all (\<lambda>c. \<not> breaks_after c \<and> c \<noteq> rbrace) x \<Longrightarrow> ins_breaks x = x"
  by (induction x) (auto simp: brk_char_def breaks_after_def rbrace_def)

lemma ins_breaks_blank: "blank w \<Longrightarrow> ins_breaks w = w"
  by (intro ins_breaks_id) (auto simp: blank_def list_all_iff not_space_breaks)

lemma comma_breaks_blank: "blank w \<Longrightarrow> comma_breaks b w = w"
  using not_space_comma by (intro comma_breaks_no_comma) (auto simp: blank_def list_all_iff)

lemma nl_not_comma: "nl \<noteq> CHR '',''" "CHR '','' \<noteq> nl"
  by (simp_all add: nl_def)

lemma comma_breaks_False_id: "comma_ok x \<Longrightarrow> comma_breaks False x = x"
  by (induction x) auto

lemma comma_breaks_True:
  "comma_ok x \<Longrightarrow> x \<noteq> [] \<Longrightarrow> \<not> is_space (last x) \<Longrightarrow>
   comma_breaks True x = (if last x = CHR '','' then x @ [nl] else x)"
proof (induction x)
  case Nil
  then show ?case by simp
next
  case (Cons c cs)
  show ?case
  proof (cases "cs = []")
    case True
    then show ?thesis by simp
  next
    case False
    then have l: "\<not> is_space (last cs)" using Cons.prems(3) by simp
    then have nb: "\<not> blank cs" using False by (auto simp: blank_def list_all_iff)
    have "comma_breaks True cs = (if last cs = CHR '','' then cs @ [nl] else cs)"
      using Cons False l by simp
    moreover have "c \<noteq> CHR '','' \<or> \<not> ident_follows cs"
      using Cons.prems(1) nb by auto
    ultimately show ?thesis using False nb by auto
  qed
qed

lemma breaks_at_line_end:
  "comma_breaks False (ins_breaks (x @ nl # u)) =
     comma_breaks (ident_follows (ins_breaks u)) (ins_breaks x) @ nl # comma_breaks False (ins_breaks u)"
proof -
  have "(if blank (nl # ins_breaks u) then False else ident_follows (nl # ins_breaks u)) =
      ident_follows (ins_breaks u)"
    by (auto simp: ident_follows_Cons ident_follows_blank)
  moreover have "CHR '','' \<noteq> nl" by (simp add: nl_def)
  ultimately show ?thesis
    using comma_breaks_append [of False "ins_breaks x" "nl # ins_breaks u"] by simp
qed

lemma split_on_line: "nl \<notin> set l \<Longrightarrow> split_on nl (l @ [nl]) = [l, []]"
  using split_on_append [of nl l "[]"] by (simp add: split_on_no_sep)

text \<open>The lines that one line of the output gives when the breaks are inserted again.\<close>

lemma piece_rbrace:
  assumes "blank w" and "nl \<notin> set w"
  shows "split_on nl (comma_breaks b (ins_breaks (w @ [rbrace]))) = [w, [rbrace], []]"
proof -
  have r: "rbrace \<noteq> nl" "rbrace \<noteq> CHR '',''" by (simp_all add: rbrace_def nl_def)
  have "ins_breaks (w @ [rbrace]) = w @ [nl, rbrace, nl]"
    using assms(1) by (simp add: ins_breaks_blank brk_char_def rbrace_def)
  moreover have "CHR '','' \<notin> set (w @ [nl, rbrace, nl])"
    using assms(1) r by (auto simp: blank_def list_all_iff not_space_comma nl_def)
  ultimately have "comma_breaks b (ins_breaks (w @ [rbrace])) = w @ nl # ([rbrace] @ nl # [])"
    by (simp add: comma_breaks_no_comma)
  then show ?thesis
    using assms(2) r by (simp only: split_on_append) (simp add: split_on_no_sep)
qed

lemma line_ok_no_breaks:
  assumes "line_ok n" and "n \<noteq> [rbrace]"
  shows "list_all (\<lambda>c. \<not> breaks_after c \<and> c \<noteq> rbrace) (butlast n)" and "rbrace \<notin> set n"
  using assms by (auto simp: line_ok_def list_all_iff dest: in_set_butlastD)

lemma piece_break:
  assumes "line_ok n" and "core n" and "blank w" and "nl \<notin> set w"
    and "n \<noteq> []" and "breaks_after (last n)"
  shows "split_on nl (comma_breaks b (ins_breaks (w @ n))) = [w @ n, []]"
proof -
  have nr: "n \<noteq> [rbrace]" using assms(6) by (auto simp: breaks_after_def rbrace_def)
  have n: "n = butlast n @ [last n]" using assms(5) by simp
  have "ins_breaks (butlast n @ [last n]) = butlast n @ [last n, nl]"
    using line_ok_no_breaks(1) [OF assms(1) nr] assms(6)
    by (auto simp: ins_breaks_id brk_char_def breaks_after_def)
  then have i: "ins_breaks (w @ n) = (w @ n) @ [nl]"
    using n assms(3) by (metis append.assoc append_Cons append_Nil ins_breaks_blank ins_breaks_simps(3))
  have c: "comma_breaks b n = n"
  proof (cases b)
    case False
    then show ?thesis using assms(1) by (simp add: comma_breaks_False_id line_ok_def)
  next
    case True
    have "last n \<noteq> CHR '',''" using assms(6) by (auto simp: breaks_after_def)
    then show ?thesis
      using True assms(1,2,5) comma_breaks_True [of n] by (simp add: line_ok_def core_last)
  qed
  have "comma_breaks b ((w @ n) @ [nl]) = comma_breaks b (w @ n) @ [nl]"
    using comma_breaks_append [of b "w @ n" "[nl]"] by (simp add: nl_not_comma)
  also have "comma_breaks b (w @ n) = w @ n"
    using comma_breaks_append [of b w n] c assms(3) by (simp add: comma_breaks_blank)
  finally have "comma_breaks b (ins_breaks (w @ n)) = (w @ n) @ [nl]"
    using i by simp
  moreover have "nl \<notin> set (w @ n)"
    using assms(1,4) by (simp add: line_ok_def)
  ultimately show ?thesis
    using split_on_line [of "w @ n"] by simp
qed

lemma piece_plain:
  assumes "line_ok n" and "core n" and "blank w" and "nl \<notin> set w"
    and "n \<noteq> [rbrace]" and "n = [] \<or> \<not> breaks_after (last n)"
  shows "split_on nl (comma_breaks b (ins_breaks (w @ n))) =
           (if b \<and> n \<noteq> [] \<and> last n = CHR '','' then [w @ n, []] else [w @ n])"
proof -
  have "list_all (\<lambda>c. \<not> breaks_after c \<and> c \<noteq> rbrace) n"
  proof (cases "n = []")
    case True
    then show ?thesis by simp
  next
    case False
    have "last n \<noteq> rbrace"
      using False line_ok_no_breaks(2) [OF assms(1,5)] by (metis last_in_set)
    moreover have "\<not> breaks_after (last n)"
      using False assms(6) by simp
    ultimately have "list_all (\<lambda>c. \<not> breaks_after c \<and> c \<noteq> rbrace) (butlast n @ [last n])"
      using line_ok_no_breaks(1) [OF assms(1,5)] by simp
    then show ?thesis
      using False by simp
  qed
  then have i: "ins_breaks (w @ n) = w @ n"
    using assms(3) by (simp add: ins_breaks_id ins_breaks_blank)
  have w: "comma_breaks b (w @ n) = w @ comma_breaks b n"
    using comma_breaks_append [of b w n] assms(3) by (simp add: comma_breaks_blank)
  have nn: "nl \<notin> set (w @ n)" using assms(1,4) by (simp add: line_ok_def)
  show ?thesis
  proof (cases "b \<and> n \<noteq> [] \<and> last n = CHR '',''")
    case True
    then have "comma_breaks b n = n @ [nl]"
      using assms(1,2) comma_breaks_True [of n] by (simp add: line_ok_def core_last not_space_comma)
    then show ?thesis
      using True i w nn split_on_line [of "w @ n"] by simp
  next
    case False
    have "comma_breaks b n = n"
    proof (cases "n = []")
      case True
      then show ?thesis by simp
    next
      case ne: False
      show ?thesis
      proof (cases b)
        case True
        then show ?thesis
          using False ne assms(1,2) comma_breaks_True [of n] by (simp add: line_ok_def core_last)
      next
        case False
        then show ?thesis using assms(1) by (simp add: comma_breaks_False_id line_ok_def)
      qed
    qed
    then show ?thesis
      using False i w nn by (simp add: split_on_no_sep)
  qed
qed

lemma join_Cons: "ls \<noteq> [] \<Longrightarrow> join sep (l # ls) = l @ sep @ join sep ls"
  by (cases ls) simp_all

lemma trim_core_id: "core n \<Longrightarrow> trim n = n"
  using trim_core [of n "[]" "[]"] by simp

lemma trim_indented: "core n \<Longrightarrow> indented out n \<Longrightarrow> trim out = n"
  using trim_core [of n _ "[]"] by (auto simp: indented_def)

lemma blank_indented: "indented out n \<Longrightarrow> blank out = blank n"
  by (auto simp: indented_def)

lemma lines_after_first:
  assumes "list_all2 indented outs ns" and "ns \<noteq> []"
    and "list_all line_ok ns" and "list_all core ns"
    and "list_all (\<lambda>l. \<not> blank l) (butlast ns)"
    and "list_all (\<lambda>c. \<not> breaks_after c \<and> c \<noteq> rbrace) (last ns)"
  shows "map trim (rest_norm (split_on nl (comma_breaks False (ins_breaks (join [nl] outs))))) = ns"
  using assms
proof (induction outs ns rule: list_all2_induct)
  case Nil
  then show ?case by simp
next
  case (Cons out outs n ns)
  obtain w where w: "blank w" "nl \<notin> set w" "out = w @ n"
    using Cons.hyps(1) by (auto simp: indented_def)
  have ok: "line_ok n" "core n" using Cons.prems by simp_all
  have t: "trim out = n" using ok(2) Cons.hyps(1) by (rule trim_indented)
  show ?case
  proof (cases "ns = []")
    case True
    then have o: "outs = []" using Cons.hyps(2) by simp
    have l: "list_all (\<lambda>c. \<not> breaks_after c \<and> c \<noteq> rbrace) n"
      using Cons.prems(5) True by simp
    then have "n \<noteq> [rbrace]" by auto
    moreover have "n = [] \<or> \<not> breaks_after (last n)"
      using l by (metis last_in_set list_all_iff)
    ultimately have "split_on nl (comma_breaks False (ins_breaks (w @ n))) = [w @ n]"
      using piece_plain [OF ok w(1,2), of False] by simp
    then show ?thesis using True o w(3) t by simp
  next
    case False
    then have one: "outs \<noteq> []" using Cons.hyps(2) by auto
    have nb: "\<not> blank n" using Cons.prems(4) False by simp
    then have nbo: "\<not> blank out" using Cons.hyps(1) by (simp add: blank_indented)
    have ne: "n \<noteq> []" using nb by auto
    let ?b = "ident_follows (ins_breaks (join [nl] outs))"
    let ?R = "split_on nl (comma_breaks False (ins_breaks (join [nl] outs)))"
    have R: "?R \<noteq> []" by (rule split_on_not_Nil)
    have IH: "map trim (rest_norm ?R) = ns"
      using Cons.IH Cons.prems False by simp
    have e: "split_on nl (comma_breaks False (ins_breaks (join [nl] (out # outs)))) =
        split_on nl (comma_breaks ?b (ins_breaks out)) @ ?R"
      using one by (simp add: join_Cons breaks_at_line_end split_on_append del: ins_breaks_simps)
    consider (rb) "n = [rbrace]" | (brk) "n \<noteq> [rbrace]" "breaks_after (last n)"
      | (plain) "n \<noteq> [rbrace]" "\<not> breaks_after (last n)"
      by blast
    then show ?thesis
    proof cases
      case rb
      then have "split_on nl (comma_breaks ?b (ins_breaks out)) = [w, [rbrace], []]"
        using piece_rbrace [OF w(1,2)] w(3) by simp
      then have "rest_norm (split_on nl (comma_breaks False (ins_breaks (join [nl] (out # outs))))) =
          n # rest_norm ?R"
        using e R w(1) nb rb by (simp add: rest_norm_blank rest_norm_keep)
      then show ?thesis using IH trim_core_id [OF ok(2)] by simp
    next
      case brk
      then have "split_on nl (comma_breaks ?b (ins_breaks out)) = [out, []]"
        using piece_break [OF ok w(1,2) ne] w(3) by simp
      then have "rest_norm (split_on nl (comma_breaks False (ins_breaks (join [nl] (out # outs))))) =
          out # rest_norm ?R"
        using e R nbo by (simp add: rest_norm_blank rest_norm_keep)
      then show ?thesis using IH t by simp
    next
      case plain
      then have "split_on nl (comma_breaks ?b (ins_breaks out)) = [out, []] \<or>
          split_on nl (comma_breaks ?b (ins_breaks out)) = [out]"
        using piece_plain [OF ok w(1,2), of ?b] w(3) by auto
      then have "rest_norm (split_on nl (comma_breaks False (ins_breaks (join [nl] (out # outs))))) =
          out # rest_norm ?R"
        using e R nbo by (auto simp: rest_norm_blank rest_norm_keep)
      then show ?thesis using IH t by simp
    qed
  qed
qed

lemma lines_again:
  assumes "normal_lines ns" and "list_all2 indented outs ns"
  shows "map trim (norm_lines (split_on nl (comma_breaks False (ins_breaks (join [nl] outs))))) = ns"
proof (cases ns)
  case Nil
  then show ?thesis using assms(1) by (simp add: normal_lines_def lines_ok_def)
next
  case (Cons n ns')
  then obtain out outs' where o: "outs = out # outs'" "indented out n" "list_all2 indented outs' ns'"
    using assms(2) by (auto simp: list_all2_Cons2)
  obtain w where w: "blank w" "nl \<notin> set w" "out = w @ n"
    using o(2) by (auto simp: indented_def)
  have ok: "line_ok n" "core n" "rbrace \<notin> set n"
    using assms(1) Cons by (simp_all add: normal_lines_def lines_ok_def)
  have t: "trim out = n" using ok(2) o(2) by (rule trim_indented)
  have nr: "n \<noteq> [rbrace]" using ok(3) by auto
  show ?thesis
  proof (cases "ns' = []")
    case True
    then have e: "outs' = []" using o(3) by simp
    have "list_all (\<lambda>c. \<not> breaks_after c \<and> c \<noteq> rbrace) n"
      using assms(1) Cons True by (simp add: normal_lines_def lines_ok_def)
    then have "n = [] \<or> \<not> breaks_after (last n)"
      by (metis last_in_set list_all_iff)
    then have "split_on nl (comma_breaks False (ins_breaks (w @ n))) = [w @ n]"
      using piece_plain [OF ok(1,2) w(1,2) nr, of False] by simp
    then show ?thesis using True e o(1) w(3) t Cons by (simp add: norm_lines_def)
  next
    case False
    then have one: "outs' \<noteq> []" using o(3) by auto
    let ?b = "ident_follows (ins_breaks (join [nl] outs'))"
    let ?R = "split_on nl (comma_breaks False (ins_breaks (join [nl] outs')))"
    have R: "?R \<noteq> []" by (rule split_on_not_Nil)
    have "list_all line_ok ns'" "list_all core ns'" "list_all (\<lambda>l. \<not> blank l) (butlast ns')"
        "list_all (\<lambda>c. \<not> breaks_after c \<and> c \<noteq> rbrace) (last ns')"
      using assms(1) Cons False by (simp_all add: normal_lines_def lines_ok_def)
    then have rest: "map trim (rest_norm ?R) = ns'"
      using lines_after_first [OF o(3) False] by simp
    have e: "split_on nl (comma_breaks False (ins_breaks (join [nl] (out # outs')))) =
        split_on nl (comma_breaks ?b (ins_breaks out)) @ ?R"
      using one by (simp add: join_Cons breaks_at_line_end split_on_append del: ins_breaks_simps)
    have "split_on nl (comma_breaks ?b (ins_breaks out)) = [out, []] \<or>
          split_on nl (comma_breaks ?b (ins_breaks out)) = [out]"
    proof (cases "n \<noteq> [] \<and> breaks_after (last n)")
      case True
      then show ?thesis using piece_break [OF ok(1,2) w(1,2), of ?b] w(3) by simp
    next
      case False
      then show ?thesis using piece_plain [OF ok(1,2) w(1,2) nr, of ?b] w(3) by auto
    qed
    then have "norm_lines (split_on nl (comma_breaks False (ins_breaks (join [nl] (out # outs'))))) =
        out # rest_norm ?R"
      using e R by (auto simp: norm_lines_def rest_norm_blank)
    then show ?thesis using rest t o(1) Cons by simp
  qed
qed

subsection \<open>Indentation\<close>

lemma indent_lines_trim: "indent_lines k (map trim ls) = indent_lines k ls"
  by (induction ls arbitrary: k) (simp_all add: Let_def)

lemma blank_repeat: "blank (repeat ''  '' k)" "nl \<notin> set (repeat ''  '' k)"
  by (induction k) (simp_all add: repeat_def is_space_def nl_def)

lemma indented_indent_lines:
  "list_all core ns \<Longrightarrow> list_all2 indented (indent_lines k ns) ns"
proof (induction ns arbitrary: k)
  case Nil
  show ?case by simp
next
  case (Cons n ns)
  have t: "trim n = n" using Cons.prems by (simp add: trim_core_id)
  have "indented [] []" by (simp add: indented_def)
  moreover have "indented (repeat ''  '' j @ n) n" for j
    using blank_repeat [of j] by (auto simp: indented_def)
  ultimately show ?case
    using Cons t by (simp add: Let_def)
qed

text \<open>
  Claim C8. Formatting with the heuristic formatter twice gives what formatting once
  gives. This holds for every input, so in particular for the well-formatted inputs of the
  claim: the heuristic formatter returns a text \<open>t\<close>, and on \<open>t\<close> it returns \<open>t\<close>.
\<close>

theorem heuristic_format_idempotent:
  "\<exists>t. basicBeautify s = Inr t \<and> basicBeautify t = Inr t"
proof -
  let ?ns = "map trim (norm_lines (split_on nl (comma_breaks False (ins_breaks s))))"
  let ?outs = "indent_lines 0 ?ns"
  have 1: "basicBeautify_text s = join [nl] ?outs"
    by (simp add: basicBeautify_text_lines indent_lines_trim)
  have n: "normal_lines ?ns" by (rule normal_lines_output)
  then have "list_all2 indented ?outs ?ns"
    by (intro indented_indent_lines) (simp add: normal_lines_def)
  then have "map trim (norm_lines (split_on nl (comma_breaks False (ins_breaks (join [nl] ?outs))))) = ?ns"
    using n by (intro lines_again)
  then have "basicBeautify_text (join [nl] ?outs) = join [nl] ?outs"
    using indent_lines_trim
      [of 0 "norm_lines (split_on nl (comma_breaks False (ins_breaks (join [nl] ?outs))))"]
    by (simp add: basicBeautify_text_lines)
  then have "basicBeautify_text (basicBeautify_text s) = basicBeautify_text s"
    using 1 by simp
  then show ?thesis
    by (simp add: basicBeautify_def try_catch_def)
qed

end
